theory Spec2Isabelle
  imports Complex_Main "HOL-Library.Multiset" "HOL-Library.Sublist"
begin

section \<open>Data exchanged with the remote services\<close>

text \<open>
  Parsed JSON, as \<^verbatim>\<open>json.loads\<close> hands it to the code. Numbers are integers here; no
  function below computes on a JSON number.
\<close>

datatype json =
    JNull
  | JBool bool
  | JInt int
  | JStr string
  | JList "json list"
  | JDict "(string \<times> json) list"

text \<open>
  The exceptions the code can meet. All of them are subclasses of Python's
  \<^verbatim>\<open>Exception\<close>, which is what \<^verbatim>\<open>except Exception\<close> in
  \<^verbatim>\<open>_fetch_single_game_rating\<close> catches; \<^verbatim>\<open>ClientError\<close> stands for any failure of the
  transport.
\<close>

datatype exn =
    ClientError
  | JSONDecodeError
  | KeyError
  | TypeError
  | AttributeError
  | ValueError
  | ZeroDivisionError
  | RuntimeError
  | PrivateAccountError

record Response =
  data :: string
  status :: int

text \<open>
  Modelled from the spec: \<^verbatim>\<open>HTTP_SUCCESS\<close> is imported from \<^verbatim>\<open>vapor.data_structures\<close>,
  which is not among the sources; it is the success status of HTTP.
\<close>

definition HTTP_SUCCESS :: int where
  "HTTP_SUCCESS = 200"

definition MAX_CONCURRENT_REQUESTS :: nat where
  "MAX_CONCURRENT_REQUESTS = 20"

text \<open>
  The world outside the program: what a GET of a URL yields (a response, or an exception
  of the transport), what \<^verbatim>\<open>json.loads\<close> makes of a body (\<open>None\<close> when it raises
  \<^verbatim>\<open>JSONDecodeError\<close>), and the values of the enumeration \<^verbatim>\<open>AntiCheatStatus\<close>
  (declared in \<^verbatim>\<open>vapor.data_structures\<close>, not among the sources).
\<close>

record world =
  http_get :: "string \<Rightarrow> exn + Response"
  json_loads :: "string \<Rightarrow> json option"
  anti_cheat_status_values :: "json list"

text \<open>\<^verbatim>\<open>async_get(url, session)\<close>: the session only selects the connection that is used.\<close>

definition async_get :: "world \<Rightarrow> string \<Rightarrow> exn + Response" where
  "async_get w url = http_get w url"

subsection \<open>Python's operations on parsed JSON\<close>

text \<open>Truth value of an object, as \<^verbatim>\<open>if\<close> and \<^verbatim>\<open>and\<close> test it.\<close>

fun truthy :: "json \<Rightarrow> bool" where
  "truthy JNull = False"
| "truthy (JBool b) = b"
| "truthy (JInt i) = (i \<noteq> 0)"
| "truthy (JStr s) = (s \<noteq> [])"
| "truthy (JList xs) = (xs \<noteq> [])"
| "truthy (JDict kvs) = (kvs \<noteq> [])"

text \<open>\<^verbatim>\<open>key in obj\<close> for a string key: a key of a dict, an element of a list, a substring of
  a string; a \<^verbatim>\<open>TypeError\<close> on anything else.\<close>

fun py_in :: "string \<Rightarrow> json \<Rightarrow> exn + bool" where
  "py_in k (JDict kvs) = Inr (map_of kvs k \<noteq> None)"
| "py_in k (JList xs) = Inr (JStr k \<in> set xs)"
| "py_in k (JStr s) = Inr (sublist k s)"
| "py_in k JNull = Inl TypeError"
| "py_in k (JBool b) = Inl TypeError"
| "py_in k (JInt i) = Inl TypeError"

text \<open>\<^verbatim>\<open>obj[key]\<close> for a string key.\<close>

fun py_getitem :: "json \<Rightarrow> string \<Rightarrow> exn + json" where
  "py_getitem (JDict kvs) k = (case map_of kvs k of None \<Rightarrow> Inl KeyError | Some v \<Rightarrow> Inr v)"
| "py_getitem (JList xs) k = Inl TypeError"
| "py_getitem (JStr s) k = Inl TypeError"
| "py_getitem JNull k = Inl TypeError"
| "py_getitem (JBool b) k = Inl TypeError"
| "py_getitem (JInt i) k = Inl TypeError"

text \<open>\<^verbatim>\<open>obj.get(key, default)\<close>: only a dict has the method.\<close>

fun py_get :: "json \<Rightarrow> string \<Rightarrow> json \<Rightarrow> exn + json" where
  "py_get (JDict kvs) k d = Inr (case map_of kvs k of None \<Rightarrow> d | Some v \<Rightarrow> v)"
| "py_get (JList xs) k d = Inl AttributeError"
| "py_get (JStr s) k d = Inl AttributeError"
| "py_get JNull k d = Inl AttributeError"
| "py_get (JBool b) k d = Inl AttributeError"
| "py_get (JInt i) k d = Inl AttributeError"

text \<open>\<^verbatim>\<open>for x in obj\<close>: the elements of a list, the keys of a dict, the characters of a
  string.\<close>

fun py_iter :: "json \<Rightarrow> exn + json list" where
  "py_iter (JList xs) = Inr xs"
| "py_iter (JDict kvs) = Inr (map (\<lambda>kv. JStr (fst kv)) kvs)"
| "py_iter (JStr s) = Inr (map (\<lambda>c. JStr [c]) s)"
| "py_iter JNull = Inl TypeError"
| "py_iter (JBool b) = Inl TypeError"
| "py_iter (JInt i) = Inl TypeError"

text \<open>\<^verbatim>\<open>str(n)\<close> for an integer: its decimal digits.\<close>

definition digit_char :: "nat \<Rightarrow> char" where
  "digit_char d = ''0123456789'' ! d"

fun str_nat :: "nat \<Rightarrow> string" where
  "str_nat n = (if n < 10 then [digit_char n] else str_nat (n div 10) @ [digit_char (n mod 10)])"

declare str_nat.simps [simp del]

definition str_int :: "int \<Rightarrow> string" where
  "str_int i = (if i < 0 then CHR ''-'' # str_nat (nat (- i)) else str_nat (nat i))"

section \<open>Games and the cache\<close>

text \<open>One entry of \<^verbatim>\<open>data['response']['games']\<close>, at the type the code casts the payload
  to (\<^verbatim>\<open>SteamAPIUserDataResponse\<close>): the keys \<^verbatim>\<open>appid\<close>, \<^verbatim>\<open>name\<close> and
  \<^verbatim>\<open>playtime_forever\<close>.\<close>

record SteamGame =
  appid :: int
  game_name :: string
  playtime_forever :: int

text \<open>\<^verbatim>\<open>data['response']\<close>: the key \<^verbatim>\<open>games\<close> is absent for a private account.\<close>

record SteamAPIUserDataResponse =
  response_games :: "SteamGame list option"

text \<open>The class \<^verbatim>\<open>Game\<close>. The rating is whatever the cache or the rating service supplied:
  the code does not check that it is a string.\<close>

record Game =
  name :: string
  rating :: json
  playtime :: int
  app_id :: string

record SteamUserData =
  game_ratings :: "Game list"
  user_average :: string

text \<open>
  Modelled from the spec: the class \<^verbatim>\<open>Cache\<close> (\<^verbatim>\<open>vapor.cache_handler\<close>) is not among the
  sources. The code reads it through \<^verbatim>\<open>has_game_cache\<close>, \<^verbatim>\<open>has_anticheat_cache\<close> and
  \<^verbatim>\<open>get_game_data\<close>; a call of \<^verbatim>\<open>update_cache\<close> is recorded as an effect, with the list
  it is given.
\<close>

record Cache =
  has_game_cache :: bool
  has_anticheat_cache :: bool
  get_game_data :: "string \<Rightarrow> Game option"

datatype AntiCheatData = AntiCheatData (ac_app_id: json) (ac_status: json)

text \<open>The requests the code sends.\<close>

datatype call =
    NativeCheck string
  | TierLookup string
  | AntiCheatFetch

section \<open>Resolving the rating of one game\<close>

definition native_url :: "string \<Rightarrow> string" where
  "native_url aid =
     ''https://store.steampowered.com/api/appdetails?appids='' @ aid @ ''&filters=platforms''"

definition protondb_url :: "string \<Rightarrow> string" where
  "protondb_url aid =
     ''https://www.protondb.com/api/v1/reports/summaries/'' @ aid @ ''.json''"

text \<open>\<^verbatim>\<open>game_data['data']['platforms'].get('linux', False)\<close>\<close>

definition linux_platform :: "json \<Rightarrow> exn + json" where
  "linux_platform game_data =
     (case py_getitem game_data ''data'' of
        Inl e \<Rightarrow> Inl e
      | Inr d \<Rightarrow>
          (case py_getitem d ''platforms'' of
             Inl e \<Rightarrow> Inl e
           | Inr p \<Rightarrow> py_get p ''linux'' (JBool False)))"

text \<open>\<^verbatim>\<open>check_game_is_native\<close>. Its result is the value of a Python \<^verbatim>\<open>and\<close>: the left
  operand when that is false, the right operand otherwise.\<close>

definition check_game_is_native :: "world \<Rightarrow> string \<Rightarrow> exn + json" where
  "check_game_is_native w aid =
     (case async_get w (native_url aid) of
        Inl e \<Rightarrow> Inl e
      | Inr d \<Rightarrow>
          if status d \<noteq> HTTP_SUCCESS then Inr (JBool False)
          else
            (case json_loads w (data d) of
               None \<Rightarrow> Inl JSONDecodeError
             | Some json_data \<Rightarrow>
                 (case py_in aid json_data of
                    Inl e \<Rightarrow> Inl e
                  | Inr present \<Rightarrow>
                      if \<not> present then Inr (JBool False)
                      else
                        (case py_getitem json_data aid of
                           Inl e \<Rightarrow> Inl e
                         | Inr game_data \<Rightarrow>
                             (case py_get game_data ''success'' (JBool False) of
                                Inl e \<Rightarrow> Inl e
                              | Inr success \<Rightarrow>
                                  if \<not> truthy success then Inr success
                                  else linux_platform game_data)))))"

text \<open>The cache test that opens \<^verbatim>\<open>get_game_average_rating\<close> (lines 146 to 149).\<close>

definition cached_rating :: "Cache \<Rightarrow> string \<Rightarrow> json option" where
  "cached_rating cache aid =
     (if has_game_cache cache then
        (case get_game_data cache aid of None \<Rightarrow> None | Some game \<Rightarrow> Some (rating game))
      else None)"

text \<open>The request to ProtonDB that closes \<^verbatim>\<open>get_game_average_rating\<close> (lines 154 to 163).\<close>

definition protondb_tier :: "world \<Rightarrow> string \<Rightarrow> exn + json" where
  "protondb_tier w aid =
     (case async_get w (protondb_url aid) of
        Inl e \<Rightarrow> Inl e
      | Inr d \<Rightarrow>
          if status d \<noteq> HTTP_SUCCESS then Inr (JStr ''pending'')
          else
            (case json_loads w (data d) of
               None \<Rightarrow> Inl JSONDecodeError
             | Some json_data \<Rightarrow> py_get json_data ''tier'' (JStr ''pending'')))"

text \<open>\<^verbatim>\<open>get_game_average_rating\<close>, with the requests it sent, in order.\<close>

definition get_game_average_rating :: "world \<Rightarrow> string \<Rightarrow> Cache \<Rightarrow> call list \<times> (exn + json)" where
  "get_game_average_rating w aid cache =
     (case cached_rating cache aid of
        Some r \<Rightarrow> ([], Inr r)
      | None \<Rightarrow>
          (case check_game_is_native w aid of
             Inl e \<Rightarrow> ([NativeCheck aid], Inl e)
           | Inr native \<Rightarrow>
               if truthy native then ([NativeCheck aid], Inr (JStr ''native''))
               else ([NativeCheck aid, TierLookup aid], protondb_tier w aid)))"

text \<open>\<^verbatim>\<open>_fetch_single_game_rating\<close>, run alone with a free slot of the semaphore: the body
  of \<^verbatim>\<open>async with semaphore\<close>.\<close>

definition fetch_single_game_rating :: "world \<Rightarrow> SteamGame \<Rightarrow> Cache \<Rightarrow> call list \<times> (exn + Game)" where
  "fetch_single_game_rating w game cache =
     (let (calls, r) = get_game_average_rating w (str_int (appid game)) cache;
          resolved = (case r of Inl e \<Rightarrow> JStr ''pending'' | Inr v \<Rightarrow> v)
      in (calls,
          Inr \<lparr>name = game_name game, rating = resolved,
               playtime = playtime_forever game, app_id = str_int (appid game)\<rparr>))"

section \<open>The batch\<close>

subsection \<open>The lists of games\<close>

text \<open>\<^verbatim>\<open>xs.sort(key=f, reverse=True)\<close>: CPython reverses the list, sorts it stably and
  reverses it again, so that equal keys keep their order.\<close>

definition sort_reverse :: "('a \<Rightarrow> int) \<Rightarrow> 'a list \<Rightarrow> 'a list" where
  "sort_reverse f xs = rev (sort_key f (rev xs))"

definition loading_game :: "SteamGame \<Rightarrow> Game" where
  "loading_game game =
     \<lparr>name = game_name game, rating = JStr ''loading'',
      playtime = playtime_forever game, app_id = str_int (appid game)\<rparr>"

text \<open>Lines 304 to 315: the list shown first.\<close>

definition initial_game_ratings :: "SteamGame list \<Rightarrow> Game list" where
  "initial_game_ratings games = sort_reverse playtime (map loading_game games)"

definition rated_game :: "(string \<rightharpoonup> json) \<Rightarrow> Game \<Rightarrow> Game" where
  "rated_game rm g =
     \<lparr>name = name g,
      rating = (case rm (app_id g) of None \<Rightarrow> JStr ''pending'' | Some r \<Rightarrow> r),
      playtime = playtime g, app_id = app_id g\<rparr>"

text \<open>Lines 339 to 350: the final list, sorted ascending and then reversed.\<close>

definition final_game_ratings :: "(string \<rightharpoonup> json) \<Rightarrow> Game list \<Rightarrow> Game list" where
  "final_game_ratings rm gs =
     rev (sort_key playtime (map (rated_game rm) gs))"

text \<open>Lines 354 to 364: the copy of the final list without the games the cache already
  held. The code computes it and does not use it.\<close>

definition games_to_remove :: "Cache \<Rightarrow> Game list \<Rightarrow> Game list" where
  "games_to_remove cache gs =
     filter (\<lambda>game. get_game_data cache (app_id game) \<noteq> None) gs"

definition game_ratings_copy :: "Cache \<Rightarrow> Game list \<Rightarrow> Game list" where
  "game_ratings_copy cache gs =
     fold remove1 (games_to_remove cache gs) gs"

subsection \<open>The average\<close>

text \<open>
  \<^verbatim>\<open>RATING_DICT\<close> is declared in \<^verbatim>\<open>vapor.data_structures\<close>, which is not among the sources:
  it is a parameter \<open>rd\<close> of the model, the keys in the order of the dict, each with the
  number at index 0 of its value.
\<close>

type_synonym rating_dict = "(string \<times> int) list"

text \<open>\<^verbatim>\<open>RATING_DICT[r][0]\<close>: the keys are strings; a list or a dict cannot be hashed.\<close>

fun rating_num :: "rating_dict \<Rightarrow> json \<Rightarrow> exn + int" where
  "rating_num rd (JStr s) = (case map_of rd s of None \<Rightarrow> Inl KeyError | Some n \<Rightarrow> Inr n)"
| "rating_num rd (JList xs) = Inl TypeError"
| "rating_num rd (JDict kvs) = Inl TypeError"
| "rating_num rd JNull = Inl KeyError"
| "rating_num rd (JBool b) = Inl KeyError"
| "rating_num rd (JInt i) = Inl KeyError"

fun game_rating_nums :: "rating_dict \<Rightarrow> Game list \<Rightarrow> exn + int list" where
  "game_rating_nums rd [] = Inr []"
| "game_rating_nums rd (game # rest) =
     (case rating_num rd (rating game) of
        Inl e \<Rightarrow> Inl e
      | Inr n \<Rightarrow>
          (case game_rating_nums rd rest of
             Inl e \<Rightarrow> Inl e
           | Inr ns \<Rightarrow> Inr (n # ns)))"

text \<open>
  \<^verbatim>\<open>round(x)\<close>. Python divides two integers into the double nearest to the quotient and
  rounds that double, halves to the even neighbour. The model rounds the quotient itself;
  the two agree as long as the sum of the numbers is below \<open>2\<^sup>5\<^sup>2\<close> in absolute value.
\<close>

definition py_round :: "rat \<Rightarrow> int" where
  "py_round x =
     (let f = \<lfloor>x\<rfloor>; d = x - of_int f
      in if d < 1 / 2 then f else if 1 / 2 < d then f + 1 else if even f then f else f + 1)"

text \<open>Lines 370 to 374. \<^verbatim>\<open>next\<close> on an exhausted generator raises \<^verbatim>\<open>StopIteration\<close>,
  which leaves a coroutine as a \<^verbatim>\<open>RuntimeError\<close>.\<close>

definition user_average_text :: "rating_dict \<Rightarrow> Game list \<Rightarrow> exn + string" where
  "user_average_text rd gs =
     (case game_rating_nums rd gs of
        Inl e \<Rightarrow> Inl e
      | Inr nums \<Rightarrow>
          if length nums = 0 then Inl ZeroDivisionError
          else
            (case find (\<lambda>kv. snd kv = py_round (of_int (sum_list nums) / of_nat (length nums))) rd of
               None \<Rightarrow> Inl RuntimeError
             | Some kv \<Rightarrow> Inr (fst kv)))"

subsection \<open>The tasks and the semaphore\<close>

text \<open>
  What the caller and the services can observe, in the order it happens: the two
  callbacks, the semaphore, the requests of each task, and the call of
  \<^verbatim>\<open>cache.update_cache(game_list=...)\<close>.
\<close>

datatype event =
    Snapshot "Game list"
  | Acquire nat
  | Release nat
  | Request nat call
  | Updated Game
  | Commit "Game list"

text \<open>
  Where the coroutine \<^verbatim>\<open>_fetch_single_game_rating\<close> of one game stands: before
  \<^verbatim>\<open>async with semaphore\<close>, inside it before the cache test, awaiting the answer of the
  native check, awaiting the answer of ProtonDB, with its rating and still holding the
  semaphore, and finished.
\<close>

datatype task =
    Waiting
  | Holding
  | AwaitNative
  | AwaitTier
  | Resolved json
  | Finished

record batch =
  tasks :: "task list"
  sem :: nat
  completed :: "Game list"
  ratings_map :: "string \<rightharpoonup> json"
  yielded :: nat
  events :: "event list"

text \<open>The event loop runs one coroutine at a time: task \<open>i\<close> up to its next await, or the
  loop over \<^verbatim>\<open>asyncio.as_completed\<close> for one finished task.\<close>

datatype action =
    Run nat
  | Loop

definition start :: "SteamGame list \<Rightarrow> batch" where
  "start games =
     \<lparr>tasks = replicate (length games) Waiting, sem = MAX_CONCURRENT_REQUESTS,
      completed = [], ratings_map = Map.empty, yielded = 0, events = []\<rparr>"

text \<open>One step of task \<open>i\<close>, which resolves \<open>game\<close>. A task that cannot move (the semaphore
  is at zero, or the task has finished) leaves the state as it is.\<close>

definition run_task :: "world \<Rightarrow> Cache \<Rightarrow> nat \<Rightarrow> SteamGame \<Rightarrow> batch \<Rightarrow> batch" where
  "run_task w cache i game s =
     (case tasks s ! i of
        Waiting \<Rightarrow>
          if sem s = 0 then s
          else s\<lparr>tasks := (tasks s)[i := Holding], sem := sem s - 1,
                 events := events s @ [Acquire i]\<rparr>
      | Holding \<Rightarrow>
          (case cached_rating cache (str_int (appid game)) of
             Some r \<Rightarrow> s\<lparr>tasks := (tasks s)[i := Resolved r]\<rparr>
           | None \<Rightarrow>
               s\<lparr>tasks := (tasks s)[i := AwaitNative],
                 events := events s @ [Request i (NativeCheck (str_int (appid game)))]\<rparr>)
      | AwaitNative \<Rightarrow>
          (case check_game_is_native w (str_int (appid game)) of
             Inl e \<Rightarrow> s\<lparr>tasks := (tasks s)[i := Resolved (JStr ''pending'')]\<rparr>
           | Inr native \<Rightarrow>
               if truthy native then s\<lparr>tasks := (tasks s)[i := Resolved (JStr ''native'')]\<rparr>
               else
                 s\<lparr>tasks := (tasks s)[i := AwaitTier],
                   events := events s @ [Request i (TierLookup (str_int (appid game)))]\<rparr>)
      | AwaitTier \<Rightarrow>
          (case protondb_tier w (str_int (appid game)) of
             Inl e \<Rightarrow> s\<lparr>tasks := (tasks s)[i := Resolved (JStr ''pending'')]\<rparr>
           | Inr r \<Rightarrow> s\<lparr>tasks := (tasks s)[i := Resolved r]\<rparr>)
      | Resolved r \<Rightarrow>
          s\<lparr>tasks := (tasks s)[i := Finished], sem := sem s + 1,
            completed := completed s @
              [\<lparr>name = game_name game, rating = r,
                playtime = playtime_forever game, app_id = str_int (appid game)\<rparr>],
            events := events s @ [Release i]\<rparr>
      | Finished \<Rightarrow> s)"

text \<open>Lines 332 to 336: the loop takes the next finished task, in the order of completion.\<close>

definition run_loop :: "bool \<Rightarrow> batch \<Rightarrow> batch" where
  "run_loop on_game_updated s =
     (case completed s of
        [] \<Rightarrow> s
      | fetched_game # rest \<Rightarrow>
          s\<lparr>completed := rest,
            ratings_map := (ratings_map s)(app_id fetched_game \<mapsto> rating fetched_game),
            yielded := Suc (yielded s),
            events := events s @ (if on_game_updated then [Updated fetched_game] else [])\<rparr>)"

definition step :: "world \<Rightarrow> Cache \<Rightarrow> SteamGame list \<Rightarrow> bool \<Rightarrow> action \<Rightarrow> batch \<Rightarrow> batch" where
  "step w cache games on_game_updated a s =
     (case a of
        Run i \<Rightarrow> if i < length games then run_task w cache i (games ! i) s else s
      | Loop \<Rightarrow> run_loop on_game_updated s)"

definition run :: "world \<Rightarrow> Cache \<Rightarrow> SteamGame list \<Rightarrow> bool \<Rightarrow> action list \<Rightarrow> batch \<Rightarrow> batch" where
  "run w cache games on_game_updated schedule s = fold (step w cache games on_game_updated) schedule s"

text \<open>The tasks between the acquisition of the semaphore and its release, and those with
  a request to ProtonDB in flight.\<close>

fun holds_semaphore :: "task \<Rightarrow> bool" where
  "holds_semaphore Waiting = False"
| "holds_semaphore Finished = False"
| "holds_semaphore Holding = True"
| "holds_semaphore AwaitNative = True"
| "holds_semaphore AwaitTier = True"
| "holds_semaphore (Resolved r) = True"

definition in_flight :: "batch \<Rightarrow> nat" where
  "in_flight s = length (filter holds_semaphore (tasks s))"

definition tier_lookups_in_flight :: "batch \<Rightarrow> nat" where
  "tier_lookups_in_flight s = length (filter (\<lambda>t. t = AwaitTier) (tasks s))"

subsection \<open>The whole batch\<close>

text \<open>
  \<^verbatim>\<open>_parse_steam_user_games\<close>. The callbacks are given or not; \<open>schedule\<close> is the order in
  which the event loop runs the coroutines. The result is the trace of events and the
  outcome: \<open>None\<close> as long as the schedule has not let the loop take every task, an
  exception, or the data returned.
\<close>

definition parse_steam_user_games ::
  "world \<Rightarrow> rating_dict \<Rightarrow> SteamAPIUserDataResponse \<Rightarrow> Cache \<Rightarrow> bool \<Rightarrow> bool \<Rightarrow> action list
     \<Rightarrow> event list \<times> (exn + SteamUserData) option" where
  "parse_steam_user_games w rd d cache on_games_loaded on_game_updated schedule =
     (case response_games d of
        None \<Rightarrow> ([], Some (Inl PrivateAccountError))
      | Some games \<Rightarrow>
          (let shown = initial_game_ratings games;
               loaded = (if on_games_loaded then [Snapshot shown] else []);
               s = run w cache games on_game_updated schedule (start games)
           in if yielded s < length games then (loaded @ events s, None)
              else
                (let final = final_game_ratings (ratings_map s) shown
                 in (loaded @ events s @ [Commit final],
                     Some (case user_average_text rd final of
                             Inl e \<Rightarrow> Inl e
                           | Inr t \<Rightarrow> Inr \<lparr>game_ratings = final, user_average = t\<rparr>)))))"

section \<open>The anti-cheat list\<close>

definition anti_cheat_url :: string where
  "anti_cheat_url =
     ''https://raw.githubusercontent.com/AreWeAntiCheatYet/AreWeAntiCheatYet/master/games.json''"

text \<open>\<^verbatim>\<open>AntiCheatStatus(v)\<close>: the member of the enumeration with the value \<open>v\<close>, which stands
  for it here, or a \<^verbatim>\<open>ValueError\<close>.\<close>

definition anti_cheat_status :: "world \<Rightarrow> json \<Rightarrow> exn + json" where
  "anti_cheat_status w v = (if v \<in> set (anti_cheat_status_values w) then Inr v else Inl ValueError)"

text \<open>Lines 117 to 124: the list comprehension, the test \<^verbatim>\<open>'steam' in game['storeIds']\<close>
  before the entry is built.\<close>

fun deserialized_data :: "world \<Rightarrow> json list \<Rightarrow> exn + AntiCheatData list" where
  "deserialized_data w [] = Inr []"
| "deserialized_data w (game # rest) =
     (case py_getitem game ''storeIds'' of
        Inl e \<Rightarrow> Inl e
      | Inr store_ids \<Rightarrow>
          (case py_in ''steam'' store_ids of
             Inl e \<Rightarrow> Inl e
           | Inr has_steam \<Rightarrow>
               if \<not> has_steam then deserialized_data w rest
               else
                 (case py_getitem store_ids ''steam'' of
                    Inl e \<Rightarrow> Inl e
                  | Inr steam_id \<Rightarrow>
                      (case py_getitem game ''status'' of
                         Inl e \<Rightarrow> Inl e
                       | Inr v \<Rightarrow>
                           (case anti_cheat_status w v of
                              Inl e \<Rightarrow> Inl e
                            | Inr st \<Rightarrow>
                                (case deserialized_data w rest of
                                   Inl e \<Rightarrow> Inl e
                                 | Inr ds \<Rightarrow> Inr (AntiCheatData steam_id st # ds)))))))"

text \<open>
  \<^verbatim>\<open>get_anti_cheat_data\<close>, for the cache that \<^verbatim>\<open>Cache().load_cache()\<close> loaded: the requests
  sent, the list given to \<^verbatim>\<open>cache.update_cache(anti_cheat_list=...)\<close> if that is called,
  and the result, an exception or \<^verbatim>\<open>Cache | None\<close>.
\<close>

definition get_anti_cheat_data ::
  "world \<Rightarrow> Cache \<Rightarrow> call list \<times> AntiCheatData list option \<times> (exn + Cache option)" where
  "get_anti_cheat_data w cache =
     (if has_anticheat_cache cache then ([], None, Inr (Some cache))
      else
        (case async_get w anti_cheat_url of
           Inl e \<Rightarrow> ([AntiCheatFetch], None, Inl e)
         | Inr d \<Rightarrow>
             if status d \<noteq> HTTP_SUCCESS then ([AntiCheatFetch], None, Inr None)
             else
               (case json_loads w (data d) of
                  None \<Rightarrow> ([AntiCheatFetch], None, Inr None)
                | Some anti_cheat_data \<Rightarrow>
                    (case py_iter anti_cheat_data of
                       Inl e \<Rightarrow> ([AntiCheatFetch], None, Inl e)
                     | Inr items \<Rightarrow>
                         (case deserialized_data w items of
                            Inl e \<Rightarrow> ([AntiCheatFetch], None, Inl e)
                          | Inr ds \<Rightarrow> ([AntiCheatFetch], Some ds, Inr (Some cache)))))))"

section \<open>Invariants of the batch\<close>

text \<open>The semaphore counts the free slots: its value and the tasks inside
  \<^verbatim>\<open>async with semaphore\<close> add up to the limit.\<close>

definition gate_inv :: "nat \<Rightarrow> batch \<Rightarrow> bool" where
  "gate_inv n s = (length (tasks s) = n \<and> sem s + in_flight s = MAX_CONCURRENT_REQUESTS)"

text \<open>Every task has acquired the semaphore once unless it still waits, and has released
  it once if and only if it has finished.\<close>

definition paired_inv :: "nat \<Rightarrow> batch \<Rightarrow> bool" where
  "paired_inv n s =
     (length (tasks s) = n \<and>
      (\<forall>i<n. count_list (events s) (Acquire i) = (if tasks s ! i = Waiting then 0 else 1) \<and>
              count_list (events s) (Release i) = (if tasks s ! i = Finished then 1 else 0)))"

fun is_snapshot :: "event \<Rightarrow> bool" where
  "is_snapshot (Snapshot gs) = True"
| "is_snapshot (Acquire i) = False"
| "is_snapshot (Release i) = False"
| "is_snapshot (Request i c) = False"
| "is_snapshot (Updated g) = False"
| "is_snapshot (Commit gs) = False"

text \<open>Every rating that a task has resolved, that waits for the loop or that the loop has
  recorded satisfies \<open>Q\<close>.\<close>

definition resolved_ratings :: "(json \<Rightarrow> bool) \<Rightarrow> batch \<Rightarrow> bool" where
  "resolved_ratings Q s =
     ((\<forall>r. Resolved r \<in> set (tasks s) \<longrightarrow> Q r) \<and>
      (\<forall>g \<in> set (completed s). Q (rating g)) \<and>
      (\<forall>k r. ratings_map s k = Some r \<longrightarrow> Q r))"

text \<open>Where a rating can come from: the two constants of the code, the cache, or the
  answer of ProtonDB.\<close>

definition rating_source :: "world \<Rightarrow> Cache \<Rightarrow> json \<Rightarrow> bool" where
  "rating_source w cache r =
     (r = JStr ''native'' \<or> r = JStr ''pending'' \<or>
      (\<exists>aid. cached_rating cache aid = Some r) \<or>
      (\<exists>aid. protondb_tier w aid = Inr r))"

text \<open>A schedule that completes every batch of \<open>n\<close> games: each task in turn runs to its
  end (five steps at most), then the loop takes it.\<close>

definition sequential_schedule :: "nat \<Rightarrow> action list" where
  "sequential_schedule n = concat (map (\<lambda>i. replicate 5 (Run i) @ [Loop]) [0..<n])"

text \<open>The steps a task still needs, at most.\<close>

fun steps_left :: "task \<Rightarrow> nat" where
  "steps_left Waiting = 5"
| "steps_left Holding = 4"
| "steps_left AwaitNative = 3"
| "steps_left AwaitTier = 2"
| "steps_left (Resolved r) = 1"
| "steps_left Finished = 0"

text \<open>Between two rounds of the sequential schedule: the first \<open>m\<close> tasks have finished and
  the loop has taken them, the others wait.\<close>

definition quiet :: "nat \<Rightarrow> nat \<Rightarrow> batch \<Rightarrow> bool" where
  "quiet m n s =
     (length (tasks s) = n \<and> (\<forall>j<n. tasks s ! j = (if j < m then Finished else Waiting)) \<and>
      sem s = MAX_CONCURRENT_REQUESTS \<and> completed s = [] \<and> yielded s = m)"

text \<open>Within round \<open>k\<close>: only task \<open>k\<close> has moved.\<close>

definition solo :: "nat \<Rightarrow> nat \<Rightarrow> batch \<Rightarrow> bool" where
  "solo k n s =
     (length (tasks s) = n \<and> k < n \<and>
      (\<forall>j<n. j \<noteq> k \<longrightarrow> tasks s ! j = (if j < k then Finished else Waiting)) \<and>
      yielded s = k \<and>
      (case tasks s ! k of
         Waiting \<Rightarrow> sem s = MAX_CONCURRENT_REQUESTS \<and> completed s = []
       | Finished \<Rightarrow> sem s = MAX_CONCURRENT_REQUESTS \<and> length (completed s) = 1
       | _ \<Rightarrow> Suc (sem s) = MAX_CONCURRENT_REQUESTS \<and> completed s = []))"

section \<open>Concrete libraries\<close>

text \<open>
  Modelled from the spec: \<^verbatim>\<open>RATING_DICT\<close> is not among the sources. The glossary of the
  spec gives the numbers borked 1, bronze 2, silver 3, gold 4, platinum 5 and native 5, and
  its section 4.4 gives pending the number 0. Only the concrete examples use this table.
\<close>

definition spec_RATING_DICT :: rating_dict where
  "spec_RATING_DICT =
     [(''pending'', 0), (''borked'', 1), (''bronze'', 2), (''silver'', 3), (''gold'', 4),
      (''platinum'', 5), (''native'', 5)]"

definition empty_cache :: Cache where
  "empty_cache =
     \<lparr>has_game_cache = False, has_anticheat_cache = False, get_game_data = (\<lambda>aid. None)\<rparr>"

text \<open>The scenario of the spec's section 8: the store answers no native check with
  success, ProtonDB knows game 10 as gold and answers game 20 with status 404.\<close>

definition scenario_world :: world where
  "scenario_world =
     \<lparr>http_get = (\<lambda>url. if url = protondb_url ''10''
                          then Inr \<lparr>data = ''{tier: gold}'', status = 200\<rparr>
                          else Inr \<lparr>data = [], status = 404\<rparr>),
      json_loads = (\<lambda>body. if body = ''{tier: gold}''
                            then Some (JDict [(''tier'', JStr ''gold'')]) else None),
      anti_cheat_status_values = []\<rparr>"

definition scenario_games :: "SteamGame list" where
  "scenario_games =
     [\<lparr>appid = 20, game_name = ''B'', playtime_forever = 50\<rparr>,
      \<lparr>appid = 10, game_name = ''A'', playtime_forever = 5\<rparr>]"

text \<open>Two tasks run in turn until both have finished; the second finishes first.\<close>

definition scenario_schedule :: "action list" where
  "scenario_schedule =
     [Run 0, Run 1, Run 0, Run 1, Run 1, Run 0, Run 1, Run 1, Loop, Run 0, Run 0, Loop]"

text \<open>A transport that fails for every request.\<close>

definition offline_world :: world where
  "offline_world =
     \<lparr>http_get = (\<lambda>url. Inl ClientError), json_loads = (\<lambda>body. None),
      anti_cheat_status_values = []\<rparr>"

text \<open>A library that lists the application 10 twice.\<close>

definition repeated_games :: "SteamGame list" where
  "repeated_games =
     [\<lparr>appid = 10, game_name = ''A'', playtime_forever = 5\<rparr>,
      \<lparr>appid = 10, game_name = ''A'', playtime_forever = 5\<rparr>]"


text \<open>A rating service that answers every game with the tier \<^verbatim>\<open>loading\<close>.\<close>

definition echo_world :: world where
  "echo_world =
     \<lparr>http_get = (\<lambda>url. Inr \<lparr>data = ''{tier: loading}'',
                              status = (if url = protondb_url ''10'' then 200 else 404)\<rparr>),
      json_loads = (\<lambda>body. Some (JDict [(''tier'', JStr ''loading'')])),
      anti_cheat_status_values = []\<rparr>"

definition single_game :: "SteamGame list" where
  "single_game = [\<lparr>appid = 10, game_name = ''A'', playtime_forever = 5\<rparr>]"

text \<open>A fresh cache that holds game 10 with the rating gold.\<close>

definition gold_cache :: Cache where
  "gold_cache =
     \<lparr>has_game_cache = True, has_anticheat_cache = False,
      get_game_data = (\<lambda>aid. if aid = ''10''
         then Some \<lparr>name = ''A'', rating = JStr ''gold'', playtime = 5, app_id = ''10''\<rparr>
         else None)\<rparr>"

text \<open>A source of the anti-cheat list that answers with status 404.\<close>

definition missing_world :: world where
  "missing_world =
     \<lparr>http_get = (\<lambda>url. Inr \<lparr>data = [], status = 404\<rparr>), json_loads = (\<lambda>body. None),
      anti_cheat_status_values = []\<rparr>"

text \<open>A source of the anti-cheat list with one game of the Steam store and one without.\<close>

definition listed_world :: world where
  "listed_world =
     \<lparr>http_get = (\<lambda>url. Inr \<lparr>data = ''games'', status = 200\<rparr>),
      json_loads = (\<lambda>body. Some (JList
         [JDict [(''storeIds'', JDict [(''steam'', JStr ''10'')]), (''status'', JStr ''Denied'')],
          JDict [(''storeIds'', JDict [(''epic'', JStr ''x'')]), (''status'', JStr ''Broken'')]])),
      anti_cheat_status_values = [JStr ''Denied'', JStr ''Broken'']\<rparr>"

text \<open>Twenty-one copies of one game: one more than the semaphore admits.\<close>

definition crowd :: "SteamGame list" where
  "crowd = replicate 21 \<lparr>appid = 10, game_name = ''A'', playtime_forever = 5\<rparr>"

section \<open>Facts about the lists of games\<close>

lemma filter_sort_reverse:
  "filter (\<lambda>y. f y = k) (sort_reverse f xs) = filter (\<lambda>y. f y = k) xs"
proof -
  have "filter (\<lambda>y. f y = k) (sort_key f (rev xs)) = filter (\<lambda>y. f y = k) (rev xs)"
    by (rule sort_key_stable)
  then show ?thesis
    by (simp add: sort_reverse_def rev_filter [symmetric])
qed

lemma mset_sort_reverse: "mset (sort_reverse f xs) = mset xs"
  by (simp add: sort_reverse_def)

lemma descending_rev_sort_key:
  "sorted_wrt (\<lambda>a b. b \<le> a) (map f (rev (sort_key f xs)))"
proof -
  have "sorted (map f (sort_key f xs))"
    by (rule sorted_sort_key)
  then show ?thesis
    by (simp add: rev_map [symmetric] sorted_wrt_rev)
qed

lemma descending_sort_reverse:
  "sorted_wrt (\<lambda>a b. b \<le> a) (map f (sort_reverse f xs))"
  unfolding sort_reverse_def by (rule descending_rev_sort_key)


lemma app_id_rated_game: "app_id (rated_game rm g) = app_id g"
  by (simp add: rated_game_def)


lemma filter_initial_game_ratings:
  "filter (\<lambda>g. playtime g = k) (initial_game_ratings games)
     = map loading_game (filter (\<lambda>g. playtime_forever g = k) games)"
  by (simp add: initial_game_ratings_def filter_sort_reverse filter_map o_def loading_game_def)

lemma mset_initial_game_ratings:
  "mset (initial_game_ratings games) = mset (map loading_game games)"
  by (simp add: initial_game_ratings_def mset_sort_reverse)

lemma map_app_id_final:
  "mset (map app_id (final_game_ratings rm gs)) = mset (map app_id gs)"
proof -
  have "mset (map app_id (final_game_ratings rm gs))
          = image_mset app_id (mset (sort_key playtime (map (rated_game rm) gs)))"
    unfolding final_game_ratings_def by (simp only: mset_map mset_rev)
  also have "\<dots> = image_mset app_id (image_mset (rated_game rm) (mset gs))"
    by (simp only: mset_sort mset_map)
  also have "\<dots> = image_mset (\<lambda>g. app_id (rated_game rm g)) (mset gs)"
    by (simp only: multiset.map_comp o_def)
  also have "\<dots> = image_mset app_id (mset gs)"
    by (simp only: app_id_rated_game)
  finally show ?thesis by (simp only: mset_map)
qed

lemma map_app_id_initial:
  "mset (map app_id (initial_game_ratings games)) = mset (map (\<lambda>g. str_int (appid g)) games)"
proof -
  have "mset (map app_id (initial_game_ratings games))
          = image_mset app_id (image_mset loading_game (mset games))"
    unfolding initial_game_ratings_def by (simp only: mset_map mset_sort_reverse)
  also have "\<dots> = image_mset (\<lambda>g. app_id (loading_game g)) (mset games)"
    by (simp only: multiset.map_comp o_def)
  also have "\<dots> = image_mset (\<lambda>g. str_int (appid g)) (mset games)"
    by (simp add: loading_game_def)
  finally show ?thesis by (simp only: mset_map)
qed

lemma length_final:
  "length (final_game_ratings rm (initial_game_ratings games)) = length games"
  by (simp add: final_game_ratings_def initial_game_ratings_def sort_reverse_def)

lemma rating_final_game_ratings:
  assumes "g \<in> set (final_game_ratings rm gs)"
  shows "rating g = JStr ''pending'' \<or> (\<exists>k. rm k = Some (rating g))"
proof -
  from assms obtain g0 where "g = rated_game rm g0"
    by (auto simp: final_game_ratings_def)
  then show ?thesis
    by (cases "rm (app_id g0)") (simp_all add: rated_game_def, blast)
qed

subsection \<open>The copy without the cached games\<close>

lemma mset_fold_remove1:
  "mset ys \<subseteq># mset xs \<Longrightarrow> mset (fold remove1 ys xs) = mset xs - mset ys"
proof (induction ys arbitrary: xs)
  case Nil
  then show ?case by simp
next
  case (Cons a ys)
  from Cons.prems have sub: "add_mset a (mset ys) \<subseteq># mset xs" by simp
  then have a: "a \<in># mset xs"
    by (simp add: insert_subset_eq_iff)
  from sub have "mset ys \<subseteq># mset xs - {#a#}"
    by (simp add: insert_subset_eq_iff)
  then have "mset ys \<subseteq># mset (remove1 a xs)"
    by simp
  then have "mset (fold remove1 ys (remove1 a xs)) = mset (remove1 a xs) - mset ys"
    by (rule Cons.IH)
  then show ?case by simp
qed

lemma set_game_ratings_copy:
  "set (game_ratings_copy cache gs) = {g \<in> set gs. get_game_data cache (app_id g) = None}"
proof -
  let ?P = "\<lambda>game. get_game_data cache (app_id game) \<noteq> None"
  have part: "mset gs = mset (filter ?P gs) + mset (filter (\<lambda>g. \<not> ?P g) gs)"
    by (simp only: mset_filter multiset_partition [symmetric])
  have "mset (game_ratings_copy cache gs) = mset gs - mset (filter ?P gs)"
    unfolding game_ratings_copy_def games_to_remove_def
    by (rule mset_fold_remove1) simp
  also have "\<dots> = mset (filter (\<lambda>g. \<not> ?P g) gs)"
    by (subst part) (simp only: add_diff_cancel_left')
  finally have "set_mset (mset (game_ratings_copy cache gs))
     = set_mset (mset (filter (\<lambda>g. \<not> ?P g) gs))"
    by (rule arg_cong)
  then show ?thesis by auto
qed

subsection \<open>Rounding and the average\<close>

lemma py_round_nearest: "\<bar>x - of_int (py_round x)\<bar> \<le> 1 / 2"
proof -
  have a: "of_int \<lfloor>x\<rfloor> \<le> x" and b: "x < of_int \<lfloor>x\<rfloor> + 1"
    by linarith+
  show ?thesis
    using a b unfolding py_round_def Let_def by (simp add: abs_if) linarith
qed

lemma py_round_half_even: "\<bar>x - of_int (py_round x)\<bar> = 1 / 2 \<Longrightarrow> even (py_round x)"
proof -
  assume h: "\<bar>x - of_int (py_round x)\<bar> = 1 / 2"
  have a: "of_int \<lfloor>x\<rfloor> \<le> x" and b: "x < of_int \<lfloor>x\<rfloor> + 1"
    by linarith+
  define f where "f = \<lfloor>x\<rfloor>"
  define d where "d = x - of_int f"
  have r: "py_round x = (if d < 1 / 2 then f else if 1 / 2 < d then f + 1 else if even f then f else f + 1)"
    unfolding py_round_def Let_def f_def d_def by simp
  have d0: "0 \<le> d" "d < 1" using a b unfolding d_def f_def by linarith+
  show ?thesis
  proof (cases "d < 1 / 2")
    case True
    then have "py_round x = f" using r by simp
    then have "\<bar>d\<bar> = 1 / 2" using h unfolding d_def by simp
    then show ?thesis using True d0 by linarith
  next
    case False
    show ?thesis
    proof (cases "1 / 2 < d")
      case True
      then have "py_round x = f + 1" using r False by simp
      then have "\<bar>d - 1\<bar> = 1 / 2" using h unfolding d_def by (simp add: algebra_simps)
      then show ?thesis using True d0 by linarith
    next
      case F2: False
      then show ?thesis using r False by auto
    qed
  qed
qed

section \<open>Facts about the tasks\<close>

lemma run_induct:
  assumes "P s" and "\<And>a s. P s \<Longrightarrow> P (step w cache games u a s)"
  shows "P (run w cache games u schedule s)"
  using assms(1) unfolding run_def
proof (induction schedule arbitrary: s)
  case Nil
  then show ?case by simp
next
  case (Cons a schedule)
  then show ?case by (simp add: assms(2))
qed

lemma length_filter_update:
  "i < length xs \<Longrightarrow>
     length (filter P (xs[i := y])) + (if P (xs ! i) then 1 else 0)
       = length (filter P xs) + (if P y then 1 else 0)"
proof (induction xs arbitrary: i)
  case Nil
  then show ?case by simp
next
  case (Cons x xs)
  show ?case
  proof (cases i)
    case 0
    then show ?thesis by simp
  next
    case (Suc j)
    with Cons.prems have "j < length xs" by simp
    from Cons.IH [OF this] Suc show ?thesis by simp
  qed
qed

lemma in_flight_update:
  fixes s s' :: batch
  shows "i < length (tasks s) \<Longrightarrow> tasks s' = (tasks s)[i := t] \<Longrightarrow>
     in_flight s' + (if holds_semaphore (tasks s ! i) then 1 else 0)
       = in_flight s + (if holds_semaphore t then 1 else 0)"
  unfolding in_flight_def by (simp only: length_filter_update)

lemma gate_inv_keep:
  fixes s s' :: batch
  assumes "gate_inv n s" and "i < n" and "holds_semaphore (tasks s ! i)" and "holds_semaphore t"
    and "tasks s' = (tasks s)[i := t]" and "sem s' = sem s"
  shows "gate_inv n s'"
proof -
  from assms(1,2) have len: "i < length (tasks s)" by (simp add: gate_inv_def)
  from in_flight_update [OF len assms(5)] assms(3,4) have "in_flight s' = in_flight s" by simp
  with assms show ?thesis by (simp add: gate_inv_def)
qed

lemma gate_inv_run_task:
  assumes "gate_inv n s" and "i < n"
  shows "gate_inv n (run_task w cache i game s)"
proof -
  from assms have len: "i < length (tasks s)" and n: "length (tasks s) = n"
    and g: "sem s + in_flight s = MAX_CONCURRENT_REQUESTS"
    by (simp_all add: gate_inv_def)
  show ?thesis
  proof (cases "tasks s ! i")
    case Waiting
    show ?thesis
    proof (cases "sem s = 0")
      case True
      with Waiting assms show ?thesis by (simp add: run_task_def)
    next
      case False
      let ?s' = "s\<lparr>tasks := (tasks s)[i := Holding], sem := sem s - 1,
                 events := events s @ [Acquire i]\<rparr>"
      have "in_flight ?s' + (if holds_semaphore (tasks s ! i) then 1 else 0)
              = in_flight s + (if holds_semaphore Holding then 1 else 0)"
        by (rule in_flight_update [OF len]) simp
      with Waiting have "in_flight ?s' = in_flight s + 1" by simp
      with False g n have "gate_inv n ?s'" by (simp add: gate_inv_def)
      with Waiting False show ?thesis by (simp add: run_task_def)
    qed
  next
    case Holding
    with assms show ?thesis
      by (auto simp: run_task_def intro!: gate_inv_keep [OF assms] split: option.splits)
  next
    case AwaitNative
    with assms show ?thesis
      by (auto simp: run_task_def intro!: gate_inv_keep [OF assms] split: sum.splits)
  next
    case AwaitTier
    with assms show ?thesis
      by (auto simp: run_task_def intro!: gate_inv_keep [OF assms] split: sum.splits)
  next
    case (Resolved r)
    let ?s' = "s\<lparr>tasks := (tasks s)[i := Finished], sem := sem s + 1,
            completed := completed s @
              [\<lparr>name = game_name game, rating = r,
                playtime = playtime_forever game, app_id = str_int (appid game)\<rparr>],
            events := events s @ [Release i]\<rparr>"
    have "in_flight ?s' + (if holds_semaphore (tasks s ! i) then 1 else 0)
              = in_flight s + (if holds_semaphore Finished then 1 else 0)"
      by (rule in_flight_update [OF len]) simp
    with Resolved have "in_flight ?s' + 1 = in_flight s" by simp
    with g n have "gate_inv n ?s'" by (simp add: gate_inv_def)
    with Resolved show ?thesis by (simp add: run_task_def)
  next
    case Finished
    with assms show ?thesis by (simp add: run_task_def)
  qed
qed

lemma gate_inv_run_loop: "gate_inv n s \<Longrightarrow> gate_inv n (run_loop u s)"
  by (simp add: gate_inv_def run_loop_def in_flight_def split: list.splits)

lemma gate_inv_step:
  "gate_inv (length games) s \<Longrightarrow> gate_inv (length games) (step w cache games u a s)"
  by (cases a) (simp_all add: step_def gate_inv_run_task gate_inv_run_loop)

lemma gate_inv_start: "gate_inv (length games) (start games)"
  by (simp add: gate_inv_def start_def in_flight_def)

lemma gate_inv_run:
  "gate_inv (length games) (run w cache games u schedule (start games))"
  by (rule run_induct [OF gate_inv_start gate_inv_step])

lemma length_filter_mono:
  "(\<And>x. P x \<Longrightarrow> Q x) \<Longrightarrow> length (filter P xs) \<le> length (filter Q xs)"
  by (induction xs) auto

lemma tier_lookups_le_in_flight: "tier_lookups_in_flight s \<le> in_flight s"
  unfolding tier_lookups_in_flight_def in_flight_def
  by (rule length_filter_mono) simp

lemma length_tasks_run_task: "length (tasks (run_task w cache i game s)) = length (tasks s)"
  by (simp add: run_task_def split: task.splits option.splits sum.splits)

lemma events_run_task:
  "\<exists>es. events (run_task w cache i game s) = events s @ es \<and> (\<forall>e \<in> set es. \<not> is_snapshot e)"
  by (simp add: run_task_def split: task.splits option.splits sum.splits)

lemma events_run_loop:
  "\<exists>es. events (run_loop u s) = events s @ es \<and> (\<forall>e \<in> set es. \<not> is_snapshot e)"
  by (simp add: run_loop_def split: list.splits)

lemma no_snapshot_step:
  assumes "\<forall>e \<in> set (events s). \<not> is_snapshot e"
  shows "\<forall>e \<in> set (events (step w cache games u a s)). \<not> is_snapshot e"
proof (cases a)
  case (Run i)
  obtain es where "events (run_task w cache i (games ! i) s) = events s @ es"
    "\<forall>e \<in> set es. \<not> is_snapshot e"
    using events_run_task by blast
  with assms Run show ?thesis by (auto simp: step_def)
next
  case Loop
  obtain es where "events (run_loop u s) = events s @ es" "\<forall>e \<in> set es. \<not> is_snapshot e"
    using events_run_loop by blast
  with assms Loop show ?thesis by (auto simp: step_def)
qed

lemma no_snapshot_run:
  "\<forall>e \<in> set (events (run w cache games u schedule (start games))). \<not> is_snapshot e"
  by (rule run_induct [where P = "\<lambda>s. \<forall>e \<in> set (events s). \<not> is_snapshot e"])
     (simp_all add: start_def no_snapshot_step)

lemma paired_inv_keep:
  fixes s s' :: batch
  assumes inv: "paired_inv n s" and i: "i < n"
    and old: "tasks s ! i \<noteq> Waiting" "tasks s ! i \<noteq> Finished"
    and new: "t \<noteq> Waiting" "t \<noteq> Finished"
    and upd: "tasks s' = (tasks s)[i := t]"
    and ev: "events s' = events s \<or> (\<exists>c. events s' = events s @ [Request i c])"
  shows "paired_inv n s'"
proof -
  from inv have len: "length (tasks s) = n" by (simp add: paired_inv_def)
  from ev have cnt: "\<And>j. count_list (events s') (Acquire j) = count_list (events s) (Acquire j)"
    "\<And>j. count_list (events s') (Release j) = count_list (events s) (Release j)"
    by auto
  show ?thesis
    unfolding paired_inv_def
  proof (intro conjI allI impI)
    show "length (tasks s') = n" using upd len by simp
  next
    fix j assume j: "j < n"
    from inv j have a: "count_list (events s) (Acquire j) = (if tasks s ! j = Waiting then 0 else 1)"
      by (simp add: paired_inv_def)
    show "count_list (events s') (Acquire j) = (if tasks s' ! j = Waiting then 0 else 1)"
      using a cnt(1) [of j] old new upd len i j by (cases "j = i") simp_all
  next
    fix j assume j: "j < n"
    from inv j have r: "count_list (events s) (Release j) = (if tasks s ! j = Finished then 1 else 0)"
      by (simp add: paired_inv_def)
    show "count_list (events s') (Release j) = (if tasks s' ! j = Finished then 1 else 0)"
      using r cnt(2) [of j] old new upd len i j by (cases "j = i") simp_all
  qed
qed

lemma paired_inv_acquire:
  fixes s s' :: batch
  assumes inv: "paired_inv n s" and i: "i < n"
    and old: "tasks s ! i = Waiting"
    and upd: "tasks s' = (tasks s)[i := Holding]"
    and ev: "events s' = events s @ [Acquire i]"
  shows "paired_inv n s'"
proof -
  from inv have len: "length (tasks s) = n" by (simp add: paired_inv_def)
  show ?thesis
    unfolding paired_inv_def
  proof (intro conjI allI impI)
    show "length (tasks s') = n" using upd len by simp
  next
    fix j assume j: "j < n"
    from inv j have a: "count_list (events s) (Acquire j) = (if tasks s ! j = Waiting then 0 else 1)"
      by (simp add: paired_inv_def)
    show "count_list (events s') (Acquire j) = (if tasks s' ! j = Waiting then 0 else 1)"
      using a ev old upd len i j by (cases "j = i") simp_all
  next
    fix j assume j: "j < n"
    from inv j have r: "count_list (events s) (Release j) = (if tasks s ! j = Finished then 1 else 0)"
      by (simp add: paired_inv_def)
    show "count_list (events s') (Release j) = (if tasks s' ! j = Finished then 1 else 0)"
      using r ev old upd len i j by (cases "j = i") simp_all
  qed
qed

lemma paired_inv_release:
  fixes s s' :: batch
  assumes inv: "paired_inv n s" and i: "i < n"
    and old: "tasks s ! i \<noteq> Waiting" "tasks s ! i \<noteq> Finished"
    and upd: "tasks s' = (tasks s)[i := Finished]"
    and ev: "events s' = events s @ [Release i]"
  shows "paired_inv n s'"
proof -
  from inv have len: "length (tasks s) = n" by (simp add: paired_inv_def)
  show ?thesis
    unfolding paired_inv_def
  proof (intro conjI allI impI)
    show "length (tasks s') = n" using upd len by simp
  next
    fix j assume j: "j < n"
    from inv j have a: "count_list (events s) (Acquire j) = (if tasks s ! j = Waiting then 0 else 1)"
      by (simp add: paired_inv_def)
    show "count_list (events s') (Acquire j) = (if tasks s' ! j = Waiting then 0 else 1)"
      using a ev old upd len i j by (cases "j = i") simp_all
  next
    fix j assume j: "j < n"
    from inv j have r: "count_list (events s) (Release j) = (if tasks s ! j = Finished then 1 else 0)"
      by (simp add: paired_inv_def)
    show "count_list (events s') (Release j) = (if tasks s' ! j = Finished then 1 else 0)"
      using r ev old upd len i j by (cases "j = i") simp_all
  qed
qed

lemma paired_inv_run_task:
  assumes "paired_inv n s" and "i < n"
  shows "paired_inv n (run_task w cache i game s)"
proof (cases "tasks s ! i")
  case Waiting
  show ?thesis
  proof (cases "sem s = 0")
    case True
    with Waiting assms show ?thesis by (simp add: run_task_def)
  next
    case False
    with Waiting show ?thesis
      by (simp add: run_task_def) (rule paired_inv_acquire [OF assms], simp_all)
  qed
next
  case Holding
  then show ?thesis
    by (simp add: run_task_def split: option.splits)
       (intro conjI impI allI; rule paired_inv_keep [OF assms]; simp)
next
  case AwaitNative
  then show ?thesis
    by (simp add: run_task_def split: sum.splits)
       (intro conjI impI allI; rule paired_inv_keep [OF assms]; simp)
next
  case AwaitTier
  then show ?thesis
    by (simp add: run_task_def split: sum.splits)
       (intro conjI impI allI; rule paired_inv_keep [OF assms]; simp)
next
  case (Resolved r)
  then show ?thesis
    by (simp add: run_task_def) (rule paired_inv_release [OF assms], simp_all)
next
  case Finished
  with assms show ?thesis
    by (simp add: run_task_def)
qed

lemma paired_inv_run_loop: "paired_inv n s \<Longrightarrow> paired_inv n (run_loop u s)"
  by (simp add: paired_inv_def run_loop_def split: list.splits)

lemma paired_inv_step:
  "paired_inv (length games) s \<Longrightarrow> paired_inv (length games) (step w cache games u a s)"
  by (cases a) (simp_all add: step_def paired_inv_run_task paired_inv_run_loop)

lemma paired_inv_start: "paired_inv (length games) (start games)"
  by (simp add: paired_inv_def start_def)

lemma paired_inv_run:
  "paired_inv (length games) (run w cache games u schedule (start games))"
  by (rule run_induct [OF paired_inv_start paired_inv_step])

lemma in_set_update:
  "x \<in> set (xs[i := y]) \<Longrightarrow> x = y \<or> x \<in> set xs"
  using set_update_subset_insert [of xs i y] by auto

lemma resolved_ratings_update:
  fixes s s' :: batch
  assumes inv: "resolved_ratings Q s"
    and t: "\<And>r. t = Resolved r \<Longrightarrow> Q r"
    and upd: "tasks s' = (tasks s)[i := t]"
    and same: "completed s' = completed s" "ratings_map s' = ratings_map s"
  shows "resolved_ratings Q s'"
  unfolding resolved_ratings_def
proof (intro conjI allI impI)
  fix r assume "Resolved r \<in> set (tasks s')"
  then have "Resolved r = t \<or> Resolved r \<in> set (tasks s)"
    unfolding upd by (rule in_set_update)
  then show "Q r"
    using t inv by (auto simp: resolved_ratings_def)
next
  show "\<forall>g \<in> set (completed s'). Q (rating g)"
    using inv same by (simp add: resolved_ratings_def)
next
  fix k r assume "ratings_map s' k = Some r"
  then show "Q r"
    using inv same by (simp add: resolved_ratings_def)
qed

lemma resolved_ratings_run_task:
  assumes inv: "resolved_ratings Q s" and len: "i < length (tasks s)"
    and const: "Q (JStr ''native'')" "Q (JStr ''pending'')"
    and cache: "\<And>aid r. cached_rating cache aid = Some r \<Longrightarrow> Q r"
    and tier: "\<And>aid r. protondb_tier w aid = Inr r \<Longrightarrow> Q r"
  shows "resolved_ratings Q (run_task w cache i game s)"
proof (cases "tasks s ! i")
  case Waiting
  show ?thesis
  proof (cases "sem s = 0")
    case True
    with Waiting inv show ?thesis by (simp add: run_task_def)
  next
    case False
    with Waiting show ?thesis
      by (simp add: run_task_def) (rule resolved_ratings_update [OF inv], simp_all)
  qed
next
  case Holding
  show ?thesis
  proof (cases "cached_rating cache (str_int (appid game))")
    case None
    with Holding show ?thesis
      by (simp add: run_task_def) (rule resolved_ratings_update [OF inv], simp_all)
  next
    case (Some r)
    then have "Q r" by (rule cache)
    with Holding Some show ?thesis
      by (simp add: run_task_def) (rule resolved_ratings_update [OF inv], simp_all)
  qed
next
  case AwaitNative
  show ?thesis
  proof (cases "check_game_is_native w (str_int (appid game))")
    case (Inl e)
    with AwaitNative const show ?thesis
      by (simp add: run_task_def) (rule resolved_ratings_update [OF inv], simp_all)
  next
    case (Inr native)
    with AwaitNative const show ?thesis
      by (simp add: run_task_def)
         (intro conjI impI; rule resolved_ratings_update [OF inv]; simp)
  qed
next
  case AwaitTier
  show ?thesis
  proof (cases "protondb_tier w (str_int (appid game))")
    case (Inl e)
    with AwaitTier const show ?thesis
      by (simp add: run_task_def) (rule resolved_ratings_update [OF inv], simp_all)
  next
    case (Inr r)
    then have "Q r" by (rule tier)
    with AwaitTier Inr show ?thesis
      by (simp add: run_task_def) (rule resolved_ratings_update [OF inv], simp_all)
  qed
next
  case (Resolved r)
  from len have "tasks s ! i \<in> set (tasks s)" by simp
  with Resolved inv have q: "Q r" by (simp add: resolved_ratings_def)
  have keep: "\<And>r'. Resolved r' \<in> set ((tasks s)[i := Finished]) \<Longrightarrow> Q r'"
  proof -
    fix r' assume "Resolved r' \<in> set ((tasks s)[i := Finished])"
    then have "Resolved r' = Finished \<or> Resolved r' \<in> set (tasks s)"
      by (rule in_set_update)
    with inv show "Q r'" by (auto simp: resolved_ratings_def)
  qed
  from inv have "\<forall>g \<in> set (completed s). Q (rating g)"
    and "\<forall>k r. ratings_map s k = Some r \<longrightarrow> Q r"
    by (simp_all add: resolved_ratings_def)
  with Resolved q keep show ?thesis
    by (simp add: run_task_def resolved_ratings_def)
next
  case Finished
  with inv show ?thesis by (simp add: run_task_def)
qed

lemma resolved_ratings_run_loop: "resolved_ratings Q s \<Longrightarrow> resolved_ratings Q (run_loop u s)"
  by (cases "completed s") (auto simp: resolved_ratings_def run_loop_def)

lemma length_tasks_run_loop: "length (tasks (run_loop u s)) = length (tasks s)"
  by (simp add: run_loop_def split: list.splits)

lemma resolved_ratings_step:
  assumes "resolved_ratings Q s \<and> length (tasks s) = length games"
    and "Q (JStr ''native'')" "Q (JStr ''pending'')"
    and "\<And>aid r. cached_rating cache aid = Some r \<Longrightarrow> Q r"
    and "\<And>aid r. protondb_tier w aid = Inr r \<Longrightarrow> Q r"
  shows "resolved_ratings Q (step w cache games u a s)
           \<and> length (tasks (step w cache games u a s)) = length games"
proof (cases a)
  case (Run i)
  show ?thesis
  proof (cases "i < length games")
    case True
    with assms(1) have "i < length (tasks s)" by simp
    with assms have "resolved_ratings Q (run_task w cache i (games ! i) s)"
      by (intro resolved_ratings_run_task) simp_all
    with Run True assms(1) show ?thesis
      by (simp add: step_def length_tasks_run_task)
  next
    case False
    with Run assms(1) show ?thesis by (simp add: step_def)
  qed
next
  case Loop
  with assms(1) show ?thesis
    by (simp add: step_def resolved_ratings_run_loop length_tasks_run_loop)
qed

lemma resolved_ratings_run:
  assumes "Q (JStr ''native'')" "Q (JStr ''pending'')"
    and "\<And>aid r. cached_rating cache aid = Some r \<Longrightarrow> Q r"
    and "\<And>aid r. protondb_tier w aid = Inr r \<Longrightarrow> Q r"
  shows "resolved_ratings Q (run w cache games u schedule (start games))"
proof -
  have "resolved_ratings Q (run w cache games u schedule (start games))
          \<and> length (tasks (run w cache games u schedule (start games))) = length games"
  proof (rule run_induct [where P = "\<lambda>s. resolved_ratings Q s \<and> length (tasks s) = length games"])
    show "resolved_ratings Q (start games) \<and> length (tasks (start games)) = length games"
      by (simp add: resolved_ratings_def start_def)
  next
    fix a s
    assume "resolved_ratings Q s \<and> length (tasks s) = length games"
    then show "resolved_ratings Q (step w cache games u a s)
           \<and> length (tasks (step w cache games u a s)) = length games"
      using assms by (rule resolved_ratings_step)
  qed
  then show ?thesis by simp
qed

lemma parse_games:
  assumes "parse_steam_user_games w rd d cache l u schedule = (tr, Some (Inr res))"
  shows "\<exists>games. response_games d = Some games"
  using assms by (cases "response_games d") (simp_all add: parse_steam_user_games_def)

lemma parse_returns:
  assumes "parse_steam_user_games w rd d cache l u schedule = (tr, Some (Inr res))"
    and "response_games d = Some games"
  shows "game_ratings res
           = final_game_ratings (ratings_map (run w cache games u schedule (start games)))
               (initial_game_ratings games)
         \<and> user_average_text rd (game_ratings res) = Inr (user_average res)
         \<and> tr = (if l then [Snapshot (initial_game_ratings games)] else [])
                  @ events (run w cache games u schedule (start games))
                  @ [Commit (game_ratings res)]"
  using assms
  by (auto simp: parse_steam_user_games_def Let_def split: if_splits sum.splits)

lemma game_rating_nums_keys:
  "game_rating_nums rd gs = Inr nums \<Longrightarrow> g \<in> set gs \<Longrightarrow>
     \<exists>k. rating g = JStr k \<and> k \<in> fst ` set rd"
proof (induction gs arbitrary: nums)
  case Nil
  then show ?case by simp
next
  case (Cons a gs)
  from Cons.prems(1) obtain n ns where n: "rating_num rd (rating a) = Inr n"
    and ns: "game_rating_nums rd gs = Inr ns"
    by (auto split: sum.splits)
  show ?case
  proof (cases "g = a")
    case True
    from n obtain k where "rating a = JStr k" "map_of rd k = Some n"
      by (cases "rating a") (auto split: option.splits)
    with True show ?thesis
      by (metis fst_conv image_eqI map_of_SomeD)
  next
    case False
    with Cons.prems(2) have "g \<in> set gs" by simp
    with Cons.IH ns show ?thesis by blast
  qed
qed


subsection \<open>Every batch can run to its end\<close>

lemma solo_run_task:
  assumes "solo k n s" and "steps_left (tasks s ! k) \<le> Suc r"
  shows "solo k n (run_task w cache k game s)
       \<and> steps_left (tasks (run_task w cache k game s) ! k) \<le> r"
proof (cases "tasks s ! k")
  case Waiting
  with assms show ?thesis
    by (simp add: solo_def run_task_def MAX_CONCURRENT_REQUESTS_def)
next
  case Holding
  with assms show ?thesis
    by (simp add: solo_def run_task_def split: option.splits)
next
  case AwaitNative
  with assms show ?thesis
    by (simp add: solo_def run_task_def split: sum.splits)
next
  case AwaitTier
  with assms show ?thesis
    by (simp add: solo_def run_task_def split: sum.splits)
next
  case (Resolved r')
  with assms show ?thesis
    by (simp add: solo_def run_task_def)
next
  case Finished
  with assms show ?thesis
    by (simp add: solo_def run_task_def)
qed

lemma solo_funpow:
  assumes "solo k n s" and "steps_left (tasks s ! k) \<le> m"
  shows "solo k n ((run_task w cache k game ^^ m) s)
       \<and> tasks ((run_task w cache k game ^^ m) s) ! k = Finished"
  using assms
proof (induction m arbitrary: s)
  case 0
  then have "tasks s ! k = Finished" by (cases "tasks s ! k") simp_all
  with 0 show ?case by simp
next
  case (Suc m)
  from solo_run_task [OF Suc.prems] have "solo k n (run_task w cache k game s)"
    and "steps_left (tasks (run_task w cache k game s) ! k) \<le> m"
    by simp_all
  from Suc.IH [OF this] show ?case by (simp add: funpow_swap1)
qed

lemma fold_replicate_funpow: "fold f (replicate m a) = f a ^^ m"
  by (induction m) (simp_all add: funpow_swap1 fun_eq_iff)

lemma quiet_round:
  assumes q: "quiet k (length games) s" and k: "k < length games"
  shows "quiet (Suc k) (length games)
           (fold (step w cache games u) (replicate 5 (Run k) @ [Loop]) s)"
proof -
  let ?n = "length games"
  let ?t = "(run_task w cache k (games ! k) ^^ 5) s"
  have st: "step w cache games u (Run k) = run_task w cache k (games ! k)"
    using k by (simp add: step_def fun_eq_iff)
  have f: "fold (step w cache games u) (replicate 5 (Run k) @ [Loop]) s = run_loop u ?t"
    by (simp only: fold_append fold_replicate_funpow st o_apply fold_simps step_def action.simps)
  from q k have s: "solo k ?n s" and w: "tasks s ! k = Waiting"
    by (auto simp: quiet_def solo_def)
  from w have "steps_left (tasks s ! k) \<le> 5" by simp
  from solo_funpow [OF s this] have t: "solo k ?n ?t" and fin: "tasks ?t ! k = Finished"
    by simp_all
  from t fin obtain g where c: "completed ?t = [g]"
    by (cases "completed ?t") (auto simp: solo_def)
  have "tasks ?t ! j = (if j < Suc k then Finished else Waiting)" if "j < ?n" for j
    using t fin that by (cases "j = k") (auto simp: solo_def)
  with t fin c have "quiet (Suc k) ?n (run_loop u ?t)"
    by (simp add: quiet_def solo_def run_loop_def)
  with f show ?thesis by simp
qed

lemma quiet_sequential:
  "m \<le> length games \<Longrightarrow>
     quiet m (length games) (run w cache games u (sequential_schedule m) (start games))"
proof (induction m)
  case 0
  show ?case
    by (simp add: sequential_schedule_def run_def quiet_def start_def)
next
  case (Suc m)
  then have q: "quiet m (length games) (run w cache games u (sequential_schedule m) (start games))"
    and k: "m < length games"
    by simp_all
  have "run w cache games u (sequential_schedule (Suc m)) (start games)
          = fold (step w cache games u) (replicate 5 (Run m) @ [Loop])
              (run w cache games u (sequential_schedule m) (start games))"
    by (simp add: sequential_schedule_def run_def)
  with quiet_round [OF q k] show ?case by simp
qed

lemma sequential_schedule_completes:
  assumes "response_games d = Some games"
  shows "\<exists>tr r. parse_steam_user_games w rd d cache l u (sequential_schedule (length games))
            = (tr, Some r)"
proof -
  have "quiet (length games) (length games)
          (run w cache games u (sequential_schedule (length games)) (start games))"
    by (rule quiet_sequential) simp
  then have "yielded (run w cache games u (sequential_schedule (length games)) (start games))
               = length games"
    by (simp add: quiet_def)
  with assms show ?thesis
    by (simp add: parse_steam_user_games_def Let_def)
qed

subsection \<open>Every task that holds the semaphore releases it\<close>

lemma run_append:
  "run w cache games u (xs @ ys) s = run w cache games u ys (run w cache games u xs s)"
  by (simp add: run_def)

lemma task_step_other:
  "a \<noteq> Run i \<Longrightarrow> tasks (step w cache games u a s) ! i = tasks s ! i"
proof (cases a)
  case (Run j)
  assume "a \<noteq> Run i"
  with Run have "j \<noteq> i" by simp
  then have "tasks (run_task w cache j game s) ! i = tasks s ! i" for game
    by (simp add: run_task_def split: task.splits option.splits sum.splits)
  with Run show ?thesis by (simp add: step_def)
next
  case Loop
  then show ?thesis by (simp add: step_def run_loop_def split: list.splits)
qed

lemma task_step_self:
  assumes "i < length games" and "i < length (tasks s)" and "tasks s ! i \<noteq> Waiting"
  shows "steps_left (tasks (step w cache games u (Run i) s) ! i) \<le> steps_left (tasks s ! i) - 1
       \<and> tasks (step w cache games u (Run i) s) ! i \<noteq> Waiting"
  using assms
  by (cases "tasks s ! i")
     (simp_all add: step_def run_task_def split: option.splits sum.splits)

lemma length_tasks_step: "length (tasks (step w cache games u a s)) = length (tasks s)"
  by (cases a) (simp_all add: step_def length_tasks_run_task length_tasks_run_loop)

lemma task_progress:
  assumes "i < length games" and "i < length (tasks s)" and "tasks s ! i \<noteq> Waiting"
  shows "steps_left (tasks (run w cache games u later s) ! i)
           \<le> steps_left (tasks s ! i) - count_list later (Run i)
       \<and> tasks (run w cache games u later s) ! i \<noteq> Waiting"
  using assms(2,3)
proof (induction later arbitrary: s)
  case Nil
  then show ?case by (simp add: run_def)
next
  case (Cons a later)
  let ?s = "step w cache games u a s"
  have len: "i < length (tasks ?s)"
    using Cons.prems(1) by (simp add: length_tasks_step)
  have r: "run w cache games u (a # later) s = run w cache games u later ?s"
    by (simp add: run_def)
  show ?case
  proof (cases "a = Run i")
    case True
    from task_step_self [OF assms(1) Cons.prems] True
    have d: "steps_left (tasks ?s ! i) \<le> steps_left (tasks s ! i) - 1"
      and w: "tasks ?s ! i \<noteq> Waiting"
      by simp_all
    from Cons.IH [OF len w] d True show ?thesis
      unfolding r by (simp; arith)
  next
    case False
    then have same: "tasks ?s ! i = tasks s ! i" by (rule task_step_other)
    with Cons.prems have w: "tasks ?s ! i \<noteq> Waiting" by simp
    from Cons.IH [OF len w] same False show ?thesis
      unfolding r by simp
  qed
qed

lemma holder_steps_left: "holds_semaphore t \<Longrightarrow> steps_left t \<le> 4 \<and> t \<noteq> Waiting"
  by (cases t) simp_all

lemma finished_steps_left: "steps_left t = 0 \<Longrightarrow> t = Finished"
  by (cases t) simp_all

lemma holder_releases:
  assumes s: "s = run w cache games u schedule (start games)"
    and i: "i < length games" and h: "holds_semaphore (tasks s ! i)"
    and later: "4 \<le> count_list later (Run i)"
  shows "tasks (run w cache games u later s) ! i = Finished
       \<and> count_list (events (run w cache games u later s)) (Acquire i) = 1
       \<and> count_list (events (run w cache games u later s)) (Release i) = 1"
proof -
  let ?t = "run w cache games u later s"
  have t: "?t = run w cache games u (schedule @ later) (start games)"
    unfolding s by (simp add: run_append)
  have "gate_inv (length games) s" unfolding s by (rule gate_inv_run)
  with i have len: "i < length (tasks s)" by (simp add: gate_inv_def)
  from holder_steps_left [OF h] have left: "steps_left (tasks s ! i) \<le> 4"
    and w: "tasks s ! i \<noteq> Waiting" by simp_all
  from task_progress [OF i len w, of w cache u later] left later
  have "steps_left (tasks ?t ! i) = 0" by simp
  then have fin: "tasks ?t ! i = Finished" by (rule finished_steps_left)
  have "paired_inv (length games) ?t" unfolding t by (rule paired_inv_run)
  with i fin show ?thesis by (simp add: paired_inv_def)
qed

lemma waiting_acquires:
  assumes "i < length games" and "tasks s ! i = Waiting" and "0 < sem s"
  shows "tasks (step w cache games u (Run i) s) = (tasks s)[i := Holding]
       \<and> sem (step w cache games u (Run i) s) = sem s - 1
       \<and> events (step w cache games u (Run i) s) = events s @ [Acquire i]"
  using assms by (simp add: step_def run_task_def)

lemma all_finished_gate_full:
  assumes s: "s = run w cache games u schedule (start games)"
    and fin: "\<forall>i<length games. tasks s ! i = Finished"
  shows "sem s = MAX_CONCURRENT_REQUESTS"
proof -
  have g: "gate_inv (length games) s" unfolding s by (rule gate_inv_run)
  then have len: "length (tasks s) = length games" by (simp add: gate_inv_def)
  have "filter holds_semaphore (tasks s) = []"
    unfolding filter_empty_conv
  proof
    fix t assume "t \<in> set (tasks s)"
    then obtain j where "j < length (tasks s)" "t = tasks s ! j"
      by (auto simp: in_set_conv_nth)
    with fin len show "\<not> holds_semaphore t" by simp
  qed
  then have "in_flight s = 0" by (simp add: in_flight_def)
  with g show ?thesis by (simp add: gate_inv_def)
qed

subsection \<open>The numbers of the ratings\<close>

lemma game_rating_nums_nth:
  "game_rating_nums rd gs = Inr nums \<Longrightarrow>
     length nums = length gs \<and> (\<forall>i<length gs. rating_num rd (rating (gs ! i)) = Inr (nums ! i))"
proof (induction gs arbitrary: nums)
  case Nil
  then show ?case by simp
next
  case (Cons a gs)
  from Cons.prems obtain n ns where n: "rating_num rd (rating a) = Inr n"
    and ns: "game_rating_nums rd gs = Inr ns" and nums: "nums = n # ns"
    by (auto split: sum.splits)
  from Cons.IH [OF ns] have len: "length ns = length gs"
    and ih: "\<forall>i<length gs. rating_num rd (rating (gs ! i)) = Inr (ns ! i)"
    by simp_all
  have "rating_num rd (rating ((a # gs) ! i)) = Inr (nums ! i)" if "i < length (a # gs)" for i
    using that n ih nums by (cases i) simp_all
  with len nums show ?case by simp
qed

section \<open>The claims\<close>

text \<open>
  Claim C1, as the code has it. Whenever the batch returns its data, the final list has as
  many entries as the games list of the payload, its identifiers are, as a multiset, the
  identifiers \<^verbatim>\<open>str(game['appid'])\<close> of the input, and the identifiers are unique within the
  result exactly when they are unique in the input: the code removes no repeated game.
\<close>

theorem C1_identifiers_kept:
  assumes "parse_steam_user_games w rd d cache l u schedule = (tr, Some (Inr res))"
    and "response_games d = Some games"
  shows "length (game_ratings res) = length games
       \<and> mset (map app_id (game_ratings res)) = mset (map (\<lambda>g. str_int (appid g)) games)
       \<and> (distinct (map app_id (game_ratings res))
            \<longleftrightarrow> distinct (map (\<lambda>g. str_int (appid g)) games))"
proof -
  from parse_returns [OF assms] obtain rm where
    res: "game_ratings res = final_game_ratings rm (initial_game_ratings games)"
    by blast
  have ids: "mset (map app_id (game_ratings res)) = mset (map (\<lambda>g. str_int (appid g)) games)"
    unfolding res by (simp only: map_app_id_final map_app_id_initial)
  from ids have "distinct (map app_id (game_ratings res))
            \<longleftrightarrow> distinct (map (\<lambda>g. str_int (appid g)) games)"
    by (rule mset_eq_imp_distinct_iff)
  with ids show ?thesis
    by (simp add: res length_final)
qed

text \<open>The scenario of the spec's section 8 returns two games with two identifiers.\<close>

theorem C1_identifiers_kept_witness:
  "snd (parse_steam_user_games scenario_world spec_RATING_DICT
          \<lparr>response_games = Some scenario_games\<rparr> empty_cache True True scenario_schedule)
     = Some (Inr \<lparr>game_ratings =
         [\<lparr>name = ''B'', rating = JStr ''pending'', playtime = 50, app_id = ''20''\<rparr>,
          \<lparr>name = ''A'', rating = JStr ''gold'', playtime = 5, app_id = ''10''\<rparr>],
         user_average = ''bronze''\<rparr>)
   \<and> length [\<lparr>name = ''B'', rating = JStr ''pending'', playtime = 50, app_id = ''20''\<rparr>,
          \<lparr>name = ''A'', rating = JStr ''gold'', playtime = 5, app_id = ''10''\<rparr>]
       = length scenario_games
   \<and> distinct (map (\<lambda>g. str_int (appid g)) scenario_games)"
proof -
  let ?d = "\<lparr>response_games = Some scenario_games\<rparr>"
  let ?r = "parse_steam_user_games scenario_world spec_RATING_DICT ?d empty_cache True True
     scenario_schedule"
  let ?res = "\<lparr>game_ratings =
       [\<lparr>name = ''B'', rating = JStr ''pending'', playtime = 50, app_id = ''20''\<rparr>,
        \<lparr>name = ''A'', rating = JStr ''gold'', playtime = 5, app_id = ''10''\<rparr>],
       user_average = ''bronze''\<rparr>"
  have s: "snd ?r = Some (Inr ?res)"
    by code_simp
  then have r: "?r = (fst ?r, Some (Inr ?res))"
    by (metis prod.collapse)
  have g: "response_games ?d = Some scenario_games" by simp
  from C1_identifiers_kept [OF r g] s show ?thesis by simp
qed

text \<open>Against C1 as stated: a games list that holds the application 10 twice gives a
  result with the identifier \<^verbatim>\<open>10\<close> twice.\<close>

theorem C1_repeated_identifier_counterexample:
  "snd (parse_steam_user_games offline_world spec_RATING_DICT
          \<lparr>response_games = Some repeated_games\<rparr> empty_cache True True
          [Run 0, Run 0, Run 0, Run 0, Loop, Run 1, Run 1, Run 1, Run 1, Loop])
     = Some (Inr \<lparr>game_ratings =
         [\<lparr>name = ''A'', rating = JStr ''pending'', playtime = 5, app_id = ''10''\<rparr>,
          \<lparr>name = ''A'', rating = JStr ''pending'', playtime = 5, app_id = ''10''\<rparr>],
         user_average = ''pending''\<rparr>)
   \<and> \<not> distinct (map app_id
         [\<lparr>name = ''A'', rating = JStr ''pending'', playtime = 5, app_id = ''10''\<rparr>,
          \<lparr>name = ''A'', rating = JStr ''pending'', playtime = 5, app_id = ''10''\<rparr>])"
  by code_simp

text \<open>
  Claim C2. Whenever the batch returns its data, the final list is sorted by playtime
  descending and every rating in it is a key of \<^verbatim>\<open>RATING_DICT\<close>, the table of the tiers,
  \<^verbatim>\<open>native\<close> and \<^verbatim>\<open>pending\<close>: no entry has the rating \<^verbatim>\<open>loading\<close>, which is not a key of
  that table. Every rating came from the constants \<^verbatim>\<open>native\<close> and \<^verbatim>\<open>pending\<close> of the code,
  from the cache or from the tier that ProtonDB answered; so the placeholder is absent as
  well whenever neither the cache nor ProtonDB supplies it.
\<close>

theorem C2_sorted_and_sourced:
  assumes "parse_steam_user_games w rd d cache l u schedule = (tr, Some (Inr res))"
  shows "sorted_wrt (\<lambda>a b. b \<le> a) (map playtime (game_ratings res))
       \<and> (\<forall>g \<in> set (game_ratings res).
             (\<exists>k. rating g = JStr k \<and> k \<in> fst ` set rd) \<and> rating_source w cache (rating g))
       \<and> (''loading'' \<notin> fst ` set rd
          \<longrightarrow> (\<forall>g \<in> set (game_ratings res). rating g \<noteq> JStr ''loading''))
       \<and> ((\<forall>aid. cached_rating cache aid \<noteq> Some (JStr ''loading''))
            \<and> (\<forall>aid. protondb_tier w aid \<noteq> Inr (JStr ''loading''))
          \<longrightarrow> (\<forall>g \<in> set (game_ratings res). rating g \<noteq> JStr ''loading''))"
proof -
  from parse_games [OF assms] obtain games where games: "response_games d = Some games"
    by blast
  let ?s = "run w cache games u schedule (start games)"
  from parse_returns [OF assms games]
  have res: "game_ratings res = final_game_ratings (ratings_map ?s) (initial_game_ratings games)"
    and avg: "user_average_text rd (game_ratings res) = Inr (user_average res)"
    by blast+
  have sorted: "sorted_wrt (\<lambda>a b. b \<le> a) (map playtime (game_ratings res))"
    unfolding res final_game_ratings_def by (rule descending_rev_sort_key)
  from avg obtain nums where nums: "game_rating_nums rd (game_ratings res) = Inr nums"
    by (auto simp: user_average_text_def split: sum.splits)
  have keys: "\<exists>k. rating g = JStr k \<and> k \<in> fst ` set rd" if "g \<in> set (game_ratings res)" for g
    using nums that by (rule game_rating_nums_keys)
  have "resolved_ratings (rating_source w cache) ?s"
    by (rule resolved_ratings_run) (auto simp: rating_source_def)
  then have rm: "\<And>k r. ratings_map ?s k = Some r \<Longrightarrow> rating_source w cache r"
    by (simp add: resolved_ratings_def)
  have source: "rating_source w cache (rating g)" if "g \<in> set (game_ratings res)" for g
  proof -
    from that have "rating g = JStr ''pending'' \<or> (\<exists>k. ratings_map ?s k = Some (rating g))"
      unfolding res by (rule rating_final_game_ratings)
    then show ?thesis
      using rm by (auto simp: rating_source_def)
  qed
  have placeholder: "rating g \<noteq> JStr ''loading''"
    if "g \<in> set (game_ratings res)"
      and "\<forall>aid. cached_rating cache aid \<noteq> Some (JStr ''loading'')"
      and "\<forall>aid. protondb_tier w aid \<noteq> Inr (JStr ''loading'')" for g
    using source [OF that(1)] that(2,3) by (auto simp: rating_source_def)
  have absent: "rating g \<noteq> JStr ''loading''"
    if "g \<in> set (game_ratings res)" and "''loading'' \<notin> fst ` set rd" for g
  proof
    assume "rating g = JStr ''loading''"
    with keys [OF that(1)] have "''loading'' \<in> fst ` set rd" by auto
    with that(2) show False by simp
  qed
  from sorted keys source placeholder absent show ?thesis by blast
qed

text \<open>The scenario of the spec's section 8, with the table of the spec's glossary, which
  has no key \<^verbatim>\<open>loading\<close>: 50 before 5, the ratings pending and gold.\<close>

theorem C2_sorted_and_sourced_witness:
  "snd (parse_steam_user_games scenario_world spec_RATING_DICT
          \<lparr>response_games = Some scenario_games\<rparr> empty_cache True True scenario_schedule)
     = Some (Inr \<lparr>game_ratings =
         [\<lparr>name = ''B'', rating = JStr ''pending'', playtime = 50, app_id = ''20''\<rparr>,
          \<lparr>name = ''A'', rating = JStr ''gold'', playtime = 5, app_id = ''10''\<rparr>],
         user_average = ''bronze''\<rparr>)
   \<and> ''loading'' \<notin> fst ` set spec_RATING_DICT
   \<and> (\<forall>aid. cached_rating empty_cache aid \<noteq> Some (JStr ''loading''))
   \<and> (\<forall>aid. protondb_tier scenario_world aid \<noteq> Inr (JStr ''loading''))
   \<and> sorted_wrt (\<lambda>a b. b \<le> a) (map playtime (game_ratings \<lparr>game_ratings =
         [\<lparr>name = ''B'', rating = JStr ''pending'', playtime = 50, app_id = ''20''\<rparr>,
          \<lparr>name = ''A'', rating = JStr ''gold'', playtime = 5, app_id = ''10''\<rparr>],
         user_average = ''bronze''\<rparr>))
   \<and> rating \<lparr>name = ''A'', rating = JStr ''gold'', playtime = 5, app_id = ''10''\<rparr>
       \<noteq> JStr ''loading''
   \<and> rating \<lparr>name = ''B'', rating = JStr ''pending'', playtime = 50, app_id = ''20''\<rparr>
       \<noteq> JStr ''loading''"
proof -
  let ?d = "\<lparr>response_games = Some scenario_games\<rparr>"
  let ?r = "parse_steam_user_games scenario_world spec_RATING_DICT ?d empty_cache True True
     scenario_schedule"
  let ?a = "\<lparr>name = ''A'', rating = JStr ''gold'', playtime = 5, app_id = ''10''\<rparr>"
  let ?b = "\<lparr>name = ''B'', rating = JStr ''pending'', playtime = 50, app_id = ''20''\<rparr>"
  let ?res = "\<lparr>game_ratings = [?b, ?a], user_average = ''bronze''\<rparr>"
  have s: "snd ?r = Some (Inr ?res)"
    by code_simp
  then have r: "?r = (fst ?r, Some (Inr ?res))"
    by (metis prod.collapse)
  have k: "''loading'' \<notin> fst ` set spec_RATING_DICT"
    by (simp add: spec_RATING_DICT_def)
  have c: "\<forall>aid. cached_rating empty_cache aid \<noteq> Some (JStr ''loading'')"
    by (simp add: cached_rating_def empty_cache_def)
  have t: "\<forall>aid. protondb_tier scenario_world aid \<noteq> Inr (JStr ''loading'')"
    by (simp add: protondb_tier_def async_get_def scenario_world_def HTTP_SUCCESS_def)
  have a: "?a \<in> set (game_ratings ?res)" and b: "?b \<in> set (game_ratings ?res)" by simp_all
  note th = C2_sorted_and_sourced [OF r]
  from th have "sorted_wrt (\<lambda>a b. b \<le> a) (map playtime (game_ratings ?res))"
    by blast
  moreover from th c t a have "rating ?a \<noteq> JStr ''loading''"
    by blast
  moreover from th k b have "rating ?b \<noteq> JStr ''loading''"
    by blast
  ultimately show ?thesis using s k c t by blast
qed

text \<open>
  A rating that is not a key of \<^verbatim>\<open>RATING_DICT\<close> never reaches the caller: when ProtonDB
  answers the tier \<^verbatim>\<open>loading\<close>, the code hands the final list with that rating to
  \<^verbatim>\<open>cache.update_cache\<close> and then raises \<^verbatim>\<open>KeyError\<close> at line 370, so no list is returned.
\<close>

lemma unknown_rating_raises_after_commit:
  "parse_steam_user_games echo_world spec_RATING_DICT
     \<lparr>response_games = Some single_game\<rparr> empty_cache False False
     [Run 0, Run 0, Run 0, Run 0, Run 0, Loop]
     = ([Acquire 0, Request 0 (NativeCheck ''10''), Request 0 (TierLookup ''10''), Release 0,
         Commit [\<lparr>name = ''A'', rating = JStr ''loading'', playtime = 5, app_id = ''10''\<rparr>]],
        Some (Inl KeyError))"
  by code_simp

text \<open>
  Claim C3. With the callback \<^verbatim>\<open>on_games_loaded\<close> given, under every schedule of the event
  loop and at every moment of the batch, the trace starts with the one call of that
  callback: every request of a task and every call of \<^verbatim>\<open>on_game_updated\<close> comes after it,
  and no second snapshot follows. The list it is given holds every game of the input with
  the rating \<^verbatim>\<open>loading\<close>, sorted by playtime descending, the games of equal playtime in the
  order of the input.
\<close>

theorem C3_snapshot_first:
  assumes "response_games d = Some games"
  shows "\<exists>rest. fst (parse_steam_user_games w rd d cache True u schedule)
                  = Snapshot (initial_game_ratings games) # rest
              \<and> (\<forall>e \<in> set rest. \<not> is_snapshot e)
              \<and> mset (initial_game_ratings games) = mset (map loading_game games)
              \<and> (\<forall>g \<in> set (initial_game_ratings games). rating g = JStr ''loading'')
              \<and> sorted_wrt (\<lambda>a b. b \<le> a) (map playtime (initial_game_ratings games))
              \<and> (\<forall>k. filter (\<lambda>g. playtime g = k) (initial_game_ratings games)
                       = map loading_game (filter (\<lambda>g. playtime_forever g = k) games))"
proof -
  let ?s = "run w cache games u schedule (start games)"
  let ?shown = "initial_game_ratings games"
  have ev: "\<forall>e \<in> set (events ?s). \<not> is_snapshot e"
    by (rule no_snapshot_run)
  have "set ?shown = loading_game ` set games"
    using mset_initial_game_ratings [of games] by (metis set_map set_mset_mset)
  then have loading: "\<forall>g \<in> set ?shown. rating g = JStr ''loading''"
    by (auto simp: loading_game_def)
  have sorted: "sorted_wrt (\<lambda>a b. b \<le> a) (map playtime ?shown)"
    unfolding initial_game_ratings_def by (rule descending_sort_reverse)
  show ?thesis
  proof (cases "yielded ?s < length games")
    case True
    then have "fst (parse_steam_user_games w rd d cache True u schedule)
                 = Snapshot ?shown # events ?s"
      using assms by (simp add: parse_steam_user_games_def Let_def)
    with ev loading sorted show ?thesis
      by (simp add: mset_initial_game_ratings filter_initial_game_ratings)
  next
    case False
    then have "fst (parse_steam_user_games w rd d cache True u schedule)
                 = Snapshot ?shown # (events ?s @ [Commit (final_game_ratings (ratings_map ?s) ?shown)])"
      using assms by (simp add: parse_steam_user_games_def Let_def)
    moreover have "\<forall>e \<in> set (events ?s @ [Commit (final_game_ratings (ratings_map ?s) ?shown)]).
        \<not> is_snapshot e"
      using ev by simp
    ultimately show ?thesis
      using loading sorted
      by (simp add: mset_initial_game_ratings filter_initial_game_ratings)
  qed
qed

text \<open>The scenario of the spec's section 8: the snapshot is B (50 minutes), then A (5).\<close>

theorem C3_snapshot_first_witness:
  "\<exists>rest. fst (parse_steam_user_games scenario_world spec_RATING_DICT
                  \<lparr>response_games = Some scenario_games\<rparr> empty_cache True True scenario_schedule)
             = Snapshot
                 [\<lparr>name = ''B'', rating = JStr ''loading'', playtime = 50, app_id = ''20''\<rparr>,
                  \<lparr>name = ''A'', rating = JStr ''loading'', playtime = 5, app_id = ''10''\<rparr>] # rest"
proof -
  have i: "initial_game_ratings scenario_games =
     [\<lparr>name = ''B'', rating = JStr ''loading'', playtime = 50, app_id = ''20''\<rparr>,
      \<lparr>name = ''A'', rating = JStr ''loading'', playtime = 5, app_id = ''10''\<rparr>]"
    by code_simp
  have g: "response_games \<lparr>response_games = Some scenario_games\<rparr> = Some scenario_games"
    by simp
  from C3_snapshot_first [OF g, of scenario_world spec_RATING_DICT empty_cache True scenario_schedule]
  show ?thesis unfolding i by blast
qed

text \<open>
  Claim C4. Whatever the cache and the two services do, \<^verbatim>\<open>_fetch_single_game_rating\<close>
  returns a game and raises nothing: when \<^verbatim>\<open>get_game_average_rating\<close> raised, the rating is
  \<^verbatim>\<open>pending\<close>, otherwise it is the rating that call returned.
\<close>

theorem C4_single_game_never_raises:
  "\<exists>g. snd (fetch_single_game_rating w game cache) = Inr g
       \<and> name g = game_name game \<and> playtime g = playtime_forever game
       \<and> app_id g = str_int (appid game)
       \<and> (case snd (get_game_average_rating w (str_int (appid game)) cache) of
             Inl e \<Rightarrow> rating g = JStr ''pending''
           | Inr r \<Rightarrow> rating g = r)"
  by (cases "get_game_average_rating w (str_int (appid game)) cache")
     (auto simp: fetch_single_game_rating_def split: sum.splits)

text \<open>A transport that fails and a payload of the wrong shape both end as \<^verbatim>\<open>pending\<close>.\<close>

theorem C4_single_game_never_raises_witness:
  "snd (get_game_average_rating offline_world (str_int (appid (hd single_game))) empty_cache)
     = Inl ClientError
   \<and> snd (get_game_average_rating listed_world (str_int (appid (hd single_game))) empty_cache)
     = Inl AttributeError
   \<and> (\<exists>g. snd (fetch_single_game_rating offline_world (hd single_game) empty_cache) = Inr g
          \<and> rating g = JStr ''pending'')
   \<and> (\<exists>g. snd (fetch_single_game_rating listed_world (hd single_game) empty_cache) = Inr g
          \<and> rating g = JStr ''pending'')"
proof -
  have a: "snd (get_game_average_rating offline_world (str_int (appid (hd single_game))) empty_cache)
     = Inl ClientError"
    by code_simp
  have b: "snd (get_game_average_rating listed_world (str_int (appid (hd single_game))) empty_cache)
     = Inl AttributeError"
    by code_simp
  from C4_single_game_never_raises [of offline_world "hd single_game" empty_cache] a
  have c: "\<exists>g. snd (fetch_single_game_rating offline_world (hd single_game) empty_cache) = Inr g
          \<and> rating g = JStr ''pending''"
    by auto
  from C4_single_game_never_raises [of listed_world "hd single_game" empty_cache] b
  have d: "\<exists>g. snd (fetch_single_game_rating listed_world (hd single_game) empty_cache) = Inr g
          \<and> rating g = JStr ''pending''"
    by auto
  from a b c d show ?thesis by blast
qed

text \<open>
  Claim C5. When the cache is fresh and holds the game \<open>x\<close> with rating \<open>R\<close>,
  \<^verbatim>\<open>get_game_average_rating\<close> returns \<open>R\<close> and sends no request, neither the native check
  nor the tier lookup; so does \<^verbatim>\<open>_fetch_single_game_rating\<close>, and so does the task of the
  batch, which records no request.
\<close>

theorem C5_cache_short_circuit:
  assumes "has_game_cache cache" and "get_game_data cache x = Some g"
  shows "get_game_average_rating w x cache = ([], Inr (rating g))
       \<and> (str_int (appid game) = x \<longrightarrow>
            fetch_single_game_rating w game cache
              = ([], Inr \<lparr>name = game_name game, rating = rating g,
                          playtime = playtime_forever game, app_id = x\<rparr>))
       \<and> (str_int (appid game) = x \<and> tasks s ! i = Holding \<longrightarrow>
            run_task w cache i game s = s\<lparr>tasks := (tasks s)[i := Resolved (rating g)]\<rparr>)"
  using assms
  by (simp add: get_game_average_rating_def fetch_single_game_rating_def cached_rating_def
      run_task_def)

theorem C5_cache_short_circuit_witness:
  "has_game_cache gold_cache
   \<and> get_game_average_rating offline_world ''10'' gold_cache = ([], Inr (JStr ''gold''))
   \<and> fetch_single_game_rating offline_world (hd single_game) gold_cache
       = ([], Inr \<lparr>name = ''A'', rating = JStr ''gold'', playtime = 5, app_id = ''10''\<rparr>)"
proof -
  have h: "has_game_cache gold_cache" by (simp add: gold_cache_def)
  have g: "get_game_data gold_cache ''10''
             = Some \<lparr>name = ''A'', rating = JStr ''gold'', playtime = 5, app_id = ''10''\<rparr>"
    by (simp add: gold_cache_def)
  have i: "str_int (appid (hd single_game)) = ''10''" by code_simp
  have n: "game_name (hd single_game) = ''A''" "playtime_forever (hd single_game) = 5"
    by (simp_all add: single_game_def)
  from C5_cache_short_circuit [OF h g, of offline_world "hd single_game"] h i n
  show ?thesis by simp
qed

text \<open>
  Claim C6. Under every schedule and at every moment of a batch of any size, the tasks
  between the acquisition and the release of the semaphore number at most 20, and with
  them the requests to ProtonDB in flight; the value of the semaphore and those tasks add
  up to 20. Every task has acquired the semaphore exactly once unless it still waits, and
  has released it exactly once if and only if it has finished. Every task that holds the
  semaphore releases it, on whichever path it resolves its rating (the cache, the native
  check, ProtonDB or an exception) and whatever the other tasks do meanwhile: once the
  event loop has run it four more times it has finished, with one acquisition and one
  release. A waiting task acquires the semaphore as soon as it runs while a slot is free,
  and when every task has finished the semaphore is back at 20.
\<close>

theorem C6_at_most_twenty_in_flight:
  assumes "s = run w cache games u schedule (start games)"
  shows "MAX_CONCURRENT_REQUESTS = 20
       \<and> sem s + in_flight s = 20
       \<and> in_flight s \<le> 20
       \<and> tier_lookups_in_flight s \<le> 20
       \<and> (\<forall>i<length games.
            count_list (events s) (Acquire i) = (if tasks s ! i = Waiting then 0 else 1)
          \<and> count_list (events s) (Release i) = (if tasks s ! i = Finished then 1 else 0))
       \<and> (\<forall>i<length games. \<forall>later.
            holds_semaphore (tasks s ! i) \<and> 4 \<le> count_list later (Run i) \<longrightarrow>
              tasks (run w cache games u later s) ! i = Finished
            \<and> count_list (events (run w cache games u later s)) (Acquire i) = 1
            \<and> count_list (events (run w cache games u later s)) (Release i) = 1)
       \<and> (\<forall>i<length games.
            tasks s ! i = Waiting \<and> 0 < sem s \<longrightarrow>
              tasks (step w cache games u (Run i) s) = (tasks s)[i := Holding]
            \<and> sem (step w cache games u (Run i) s) = sem s - 1
            \<and> events (step w cache games u (Run i) s) = events s @ [Acquire i])
       \<and> ((\<forall>i<length games. tasks s ! i = Finished) \<longrightarrow> sem s = 20)"
proof -
  have g: "gate_inv (length games) s"
    unfolding assms by (rule gate_inv_run)
  have p: "paired_inv (length games) s"
    unfolding assms by (rule paired_inv_run)
  from g have sum: "sem s + in_flight s = 20"
    by (simp add: gate_inv_def MAX_CONCURRENT_REQUESTS_def)
  then have le: "in_flight s \<le> 20" by simp
  with tier_lookups_le_in_flight [of s] have tier: "tier_lookups_in_flight s \<le> 20" by simp
  from p have counts: "\<forall>i<length games.
            count_list (events s) (Acquire i) = (if tasks s ! i = Waiting then 0 else 1)
          \<and> count_list (events s) (Release i) = (if tasks s ! i = Finished then 1 else 0)"
    by (simp add: paired_inv_def)
  have releases: "tasks (run w cache games u later s) ! i = Finished
            \<and> count_list (events (run w cache games u later s)) (Acquire i) = 1
            \<and> count_list (events (run w cache games u later s)) (Release i) = 1"
    if "i < length games" and "holds_semaphore (tasks s ! i) \<and> 4 \<le> count_list later (Run i)"
    for i later
    using assms that by (intro holder_releases) simp_all
  have acquires: "tasks (step w cache games u (Run i) s) = (tasks s)[i := Holding]
            \<and> sem (step w cache games u (Run i) s) = sem s - 1
            \<and> events (step w cache games u (Run i) s) = events s @ [Acquire i]"
    if "i < length games" and "tasks s ! i = Waiting \<and> 0 < sem s" for i
    using that by (intro waiting_acquires) simp_all
  have full: "sem s = 20" if "\<forall>i<length games. tasks s ! i = Finished"
    using all_finished_gate_full [OF assms that] by (simp add: MAX_CONCURRENT_REQUESTS_def)
  have limit: "MAX_CONCURRENT_REQUESTS = 20" by (simp add: MAX_CONCURRENT_REQUESTS_def)
  from limit sum le tier counts releases acquires full show ?thesis by blast
qed

text \<open>Twenty-one games: after each task has run once, twenty hold the semaphore and the
  last one waits. Task 0 then runs four more times: its request fails, it finishes and
  releases the semaphore, and task 20 acquires the free slot.\<close>

theorem C6_at_most_twenty_in_flight_witness:
  "in_flight (run offline_world empty_cache crowd False (map Run [0..<21]) (start crowd)) = 20
   \<and> sem (run offline_world empty_cache crowd False (map Run [0..<21]) (start crowd)) = 0
   \<and> tasks (run offline_world empty_cache crowd False (map Run [0..<21]) (start crowd)) ! 20 = Waiting
   \<and> count_list (events (run offline_world empty_cache crowd False (map Run [0..<21]) (start crowd)))
        (Acquire 20) = 0
   \<and> holds_semaphore
        (tasks (run offline_world empty_cache crowd False (map Run [0..<21]) (start crowd)) ! 0)
   \<and> tasks (run offline_world empty_cache crowd False [Run 0, Run 0, Run 0, Run 0, Run 20]
        (run offline_world empty_cache crowd False (map Run [0..<21]) (start crowd))) ! 0 = Finished
   \<and> count_list (events (run offline_world empty_cache crowd False
          [Run 0, Run 0, Run 0, Run 0, Run 20]
          (run offline_world empty_cache crowd False (map Run [0..<21]) (start crowd))))
        (Release 0) = 1
   \<and> count_list (events (run offline_world empty_cache crowd False
          [Run 0, Run 0, Run 0, Run 0, Run 20]
          (run offline_world empty_cache crowd False (map Run [0..<21]) (start crowd))))
        (Acquire 0) = 1
   \<and> tasks (run offline_world empty_cache crowd False [Run 0, Run 0, Run 0, Run 0, Run 20]
        (run offline_world empty_cache crowd False (map Run [0..<21]) (start crowd))) ! 20 = Holding"
proof -
  let ?s = "run offline_world empty_cache crowd False (map Run [0..<21]) (start crowd)"
  let ?later = "[Run 0, Run 0, Run 0, Run 0, Run 20]"
  let ?t = "run offline_world empty_cache crowd False ?later ?s"
  have s0: "sem ?s = 0" by code_simp
  have t: "tasks ?s ! 20 = Waiting" "tasks ?s ! 0 = Holding" by code_simp+
  have t20: "tasks ?t ! 20 = Holding" by code_simp
  have n: "length crowd = 21" by (simp add: crowd_def)
  have four: "4 \<le> count_list ?later (Run 0)" by simp
  note th = C6_at_most_twenty_in_flight [OF refl, of offline_world empty_cache crowd False "map Run [0..<21]"]
  from th s0 have f: "in_flight ?s = 20" by simp
  from th n have "count_list (events ?s) (Acquire 20) = (if tasks ?s ! 20 = Waiting then 0 else 1)"
    by simp
  with t have a20: "count_list (events ?s) (Acquire 20) = 0" by simp
  from t have h: "holds_semaphore (tasks ?s ! 0)" by simp
  have zero: "0 < length crowd" using n by simp
  from th zero h four have r: "tasks ?t ! 0 = Finished
      \<and> count_list (events ?t) (Acquire 0) = 1 \<and> count_list (events ?t) (Release 0) = 1"
    by blast
  from f s0 t a20 h r t20 show ?thesis by blast
qed

text \<open>
  Claim C7. For a final list that is not empty and whose ratings all have a number in
  \<^verbatim>\<open>RATING_DICT\<close>: the numbers are those of the ratings, in order; the mean of the numbers
  is rounded to an integer at distance at most one half, the even one when the distance
  is one half; the result is the first key of \<^verbatim>\<open>RATING_DICT\<close>, in the order of the dict,
  whose number is the rounded mean (a \<^verbatim>\<open>RuntimeError\<close> when there is none). The numbers 2
  and 4 round to 3, the numbers 2 and 3 to 2. It is the average that the batch returns.
\<close>

theorem C7_average_rounded_half_even:
  fixes mean :: rat
  assumes nums: "game_rating_nums rd gs = Inr nums" and ne: "gs \<noteq> []"
    and mean: "mean = of_int (sum_list nums) / of_nat (length nums)"
  shows "length nums = length gs
       \<and> (\<forall>i<length gs. rating_num rd (rating (gs ! i)) = Inr (nums ! i))
       \<and> \<bar>mean - of_int (py_round mean)\<bar> \<le> 1 / 2
       \<and> (\<bar>mean - of_int (py_round mean)\<bar> = 1 / 2 \<longrightarrow> even (py_round mean))
       \<and> user_average_text rd gs
            = (case find (\<lambda>kv. snd kv = py_round mean) rd of
                 None \<Rightarrow> Inl RuntimeError
               | Some kv \<Rightarrow> Inr (fst kv))
       \<and> (\<forall>t. user_average_text rd gs = Inr t \<longrightarrow>
             (\<exists>i<length rd. rd ! i = (t, py_round mean) \<and> (\<forall>j<i. snd (rd ! j) \<noteq> py_round mean)))
       \<and> (nums = [2, 4] \<longrightarrow> py_round mean = 3)
       \<and> (nums = [2, 3] \<longrightarrow> py_round mean = 2)
       \<and> (\<forall>w d cache l u schedule tr res.
             parse_steam_user_games w rd d cache l u schedule = (tr, Some (Inr res))
               \<and> game_ratings res = gs
             \<longrightarrow> user_average_text rd gs = Inr (user_average res))"
proof -
  note nth = game_rating_nums_nth [OF nums]
  from nth ne have len: "length nums \<noteq> 0" by simp
  have avg: "user_average_text rd gs
            = (case find (\<lambda>kv. snd kv = py_round mean) rd of
                 None \<Rightarrow> Inl RuntimeError
               | Some kv \<Rightarrow> Inr (fst kv))"
    using nums len by (simp add: user_average_text_def mean)
  have first: "\<exists>i<length rd. rd ! i = (t, py_round mean) \<and> (\<forall>j<i. snd (rd ! j) \<noteq> py_round mean)"
    if "user_average_text rd gs = Inr t" for t
  proof -
    from that avg obtain kv where f: "find (\<lambda>kv. snd kv = py_round mean) rd = Some kv"
      and t: "t = fst kv"
      by (auto split: option.splits)
    from f obtain i where "i < length rd" "snd (rd ! i) = py_round mean" "kv = rd ! i"
      "\<forall>j<i. snd (rd ! j) \<noteq> py_round mean"
      unfolding find_Some_iff by blast
    with t show ?thesis by (intro exI [of _ i]) (simp add: prod_eq_iff)
  qed
  have e1: "py_round mean = 3" if "nums = [2, 4]"
  proof -
    from that have m: "mean = 3" by (simp add: mean)
    have "py_round (3 :: rat) = 3" by code_simp
    then show ?thesis by (simp only: m)
  qed
  have e2: "py_round mean = 2" if "nums = [2, 3]"
  proof -
    from that have m: "mean = 5 / 2" by (simp add: mean)
    have "py_round (5 / 2 :: rat) = 2" by code_simp
    then show ?thesis by (simp only: m)
  qed
  have batch: "user_average_text rd gs = Inr (user_average res)"
    if "parse_steam_user_games w rd d cache l u schedule = (tr, Some (Inr res))"
      and "game_ratings res = gs" for w d cache l u schedule tr res
  proof -
    from parse_games [OF that(1)] obtain games where "response_games d = Some games" by blast
    from parse_returns [OF that(1) this]
    have "user_average_text rd (game_ratings res) = Inr (user_average res)" by blast
    then show ?thesis by (simp only: that(2))
  qed
  from nth py_round_nearest [of mean] py_round_half_even [of mean] avg first e1 e2 batch
  show ?thesis by blast
qed

text \<open>A bronze and a silver game, with the numbers 2 and 3 of the spec's glossary, average
  to bronze.\<close>

theorem C7_average_rounded_half_even_witness:
  "user_average_text spec_RATING_DICT
      [\<lparr>name = ''A'', rating = JStr ''bronze'', playtime = 5, app_id = ''10''\<rparr>,
       \<lparr>name = ''B'', rating = JStr ''silver'', playtime = 3, app_id = ''20''\<rparr>]
     = Inr ''bronze''
   \<and> py_round (of_int (sum_list [2, 3]) / of_nat (length [2, 3 :: int])) = 2
   \<and> (\<exists>i<length spec_RATING_DICT. spec_RATING_DICT ! i = (''bronze'', 2))"
proof -
  let ?gs = "[\<lparr>name = ''A'', rating = JStr ''bronze'', playtime = 5, app_id = ''10''\<rparr>,
       \<lparr>name = ''B'', rating = JStr ''silver'', playtime = 3, app_id = ''20''\<rparr>]"
  have n: "game_rating_nums spec_RATING_DICT ?gs = Inr [2, 3]"
    by (simp add: spec_RATING_DICT_def)
  have ne: "?gs \<noteq> []" by simp
  have u: "user_average_text spec_RATING_DICT ?gs = Inr ''bronze''"
    by code_simp
  note th = C7_average_rounded_half_even [OF n ne refl]
  from th have r: "py_round (of_int (sum_list [2, 3]) / of_nat (length [2, 3 :: int])) = 2"
    by blast
  from th u have "\<exists>i<length spec_RATING_DICT. spec_RATING_DICT ! i
      = (''bronze'', py_round (of_int (sum_list [2, 3]) / of_nat (length [2, 3 :: int])))"
    by blast
  with r u show ?thesis by simp
qed

text \<open>
  Claim C8 fails on the code: the list given to \<^verbatim>\<open>cache.update_cache\<close> is the whole final
  list. Here the cache holds game 10 before the batch, the copy without the cached games
  (lines 354 to 364) is empty, and game 10 is committed all the same.
\<close>

theorem C8_cached_game_committed:
  "fst (parse_steam_user_games offline_world spec_RATING_DICT
          \<lparr>response_games = Some single_game\<rparr> gold_cache False False [Run 0, Run 0, Run 0, Loop])
     = [Acquire 0, Release 0,
        Commit [\<lparr>name = ''A'', rating = JStr ''gold'', playtime = 5, app_id = ''10''\<rparr>]]
   \<and> get_game_data gold_cache ''10'' \<noteq> None
   \<and> game_ratings_copy gold_cache
        [\<lparr>name = ''A'', rating = JStr ''gold'', playtime = 5, app_id = ''10''\<rparr>] = []"
  by code_simp

text \<open>
  Claim C9, as the code has it. With fresh anti-cheat data \<^verbatim>\<open>get_anti_cheat_data\<close> returns
  the cache, sends no request and updates nothing. Otherwise, when the response has another
  status than success or a body that does not parse, it returns \<^verbatim>\<open>None\<close>, not the cache,
  updates nothing and raises nothing. The cache is updated only after a response with
  status success whose body parsed and whose entries could all be read, and then the
  cache is returned.
\<close>

theorem C9_anti_cheat_refresh:
  "(has_anticheat_cache cache \<longrightarrow> get_anti_cheat_data w cache = ([], None, Inr (Some cache)))
   \<and> (\<not> has_anticheat_cache cache \<longrightarrow>
        (\<forall>d. async_get w anti_cheat_url = Inr d
              \<and> (status d \<noteq> HTTP_SUCCESS \<or> json_loads w (data d) = None)
           \<longrightarrow> get_anti_cheat_data w cache = ([AntiCheatFetch], None, Inr None)))
   \<and> (\<forall>ds. fst (snd (get_anti_cheat_data w cache)) = Some ds \<longrightarrow>
          \<not> has_anticheat_cache cache
          \<and> (\<exists>d j items. async_get w anti_cheat_url = Inr d \<and> status d = HTTP_SUCCESS
                \<and> json_loads w (data d) = Some j \<and> py_iter j = Inr items
                \<and> deserialized_data w items = Inr ds)
          \<and> get_anti_cheat_data w cache = ([AntiCheatFetch], Some ds, Inr (Some cache)))"
proof (intro conjI allI impI)
  assume "has_anticheat_cache cache"
  then show "get_anti_cheat_data w cache = ([], None, Inr (Some cache))"
    by (simp add: get_anti_cheat_data_def)
next
  fix d
  assume "\<not> has_anticheat_cache cache"
    and "async_get w anti_cheat_url = Inr d
           \<and> (status d \<noteq> HTTP_SUCCESS \<or> json_loads w (data d) = None)"
  then show "get_anti_cheat_data w cache = ([AntiCheatFetch], None, Inr None)"
    by (auto simp: get_anti_cheat_data_def)
next
  fix ds assume c: "fst (snd (get_anti_cheat_data w cache)) = Some ds"
  then show "\<not> has_anticheat_cache cache"
    by (auto simp: get_anti_cheat_data_def)
  from c show "\<exists>d j items. async_get w anti_cheat_url = Inr d \<and> status d = HTTP_SUCCESS
                \<and> json_loads w (data d) = Some j \<and> py_iter j = Inr items
                \<and> deserialized_data w items = Inr ds"
    by (auto simp: get_anti_cheat_data_def split: if_splits sum.splits option.splits)
  from c show "get_anti_cheat_data w cache = ([AntiCheatFetch], Some ds, Inr (Some cache))"
    by (auto simp: get_anti_cheat_data_def split: if_splits sum.splits option.splits)
qed

text \<open>A fresh cache, a source that answers 404, and a source with one game of the Steam
  store.\<close>

theorem C9_anti_cheat_refresh_witness:
  "get_anti_cheat_data missing_world (empty_cache\<lparr>has_anticheat_cache := True\<rparr>)
     = ([], None, Inr (Some (empty_cache\<lparr>has_anticheat_cache := True\<rparr>)))
   \<and> get_anti_cheat_data missing_world empty_cache = ([AntiCheatFetch], None, Inr None)
   \<and> get_anti_cheat_data listed_world empty_cache
       = ([AntiCheatFetch], Some [AntiCheatData (JStr ''10'') (JStr ''Denied'')],
          Inr (Some empty_cache))"
proof -
  have f: "has_anticheat_cache (empty_cache\<lparr>has_anticheat_cache := True\<rparr>)" by simp
  have n: "\<not> has_anticheat_cache empty_cache" by (simp add: empty_cache_def)
  have m: "async_get missing_world anti_cheat_url = Inr \<lparr>data = [], status = 404\<rparr>
             \<and> (status \<lparr>data = [], status = 404\<rparr> \<noteq> HTTP_SUCCESS
                 \<or> json_loads missing_world (data \<lparr>data = [], status = 404\<rparr>) = None)"
    by (simp add: async_get_def missing_world_def HTTP_SUCCESS_def)
  have l: "fst (snd (get_anti_cheat_data listed_world empty_cache))
             = Some [AntiCheatData (JStr ''10'') (JStr ''Denied'')]"
    by code_simp
  from C9_anti_cheat_refresh [of "empty_cache\<lparr>has_anticheat_cache := True\<rparr>" missing_world] f
  have a: "get_anti_cheat_data missing_world (empty_cache\<lparr>has_anticheat_cache := True\<rparr>)
     = ([], None, Inr (Some (empty_cache\<lparr>has_anticheat_cache := True\<rparr>)))"
    by blast
  from C9_anti_cheat_refresh [of empty_cache missing_world] n m
  have b: "get_anti_cheat_data missing_world empty_cache = ([AntiCheatFetch], None, Inr None)"
    by blast
  from C9_anti_cheat_refresh [of empty_cache listed_world] l
  have c: "get_anti_cheat_data listed_world empty_cache
       = ([AntiCheatFetch], Some [AntiCheatData (JStr ''10'') (JStr ''Denied'')],
          Inr (Some empty_cache))"
    by blast
  from a b c show ?thesis by blast
qed

text \<open>Against C9 as stated: on status 404 the result is \<^verbatim>\<open>None\<close>, not the cache.\<close>

theorem C9_returns_none_counterexample:
  "get_anti_cheat_data missing_world empty_cache = ([AntiCheatFetch], None, Inr None)
   \<and> snd (snd (get_anti_cheat_data missing_world empty_cache)) \<noteq> Inr (Some empty_cache)"
  by (simp add: get_anti_cheat_data_def empty_cache_def missing_world_def async_get_def
      HTTP_SUCCESS_def)




end
